theory Spec2Isabelle
  imports Complex_Main "HOL-Library.Word" "HOL-Library.AList" "HOL-Library.Sublist"
begin

section \<open>Values, exceptions and printed output\<close>

text \<open>
  The program is \<^verbatim>\<open>src/proekt/t16.py\<close>: \<^verbatim>\<open>calculate_hash\<close>,
  \<^verbatim>\<open>create_checksum_file\<close> and \<^verbatim>\<open>verify_integrity\<close>.
  Python objects that travel through the manifest are values of \<open>pyval\<close>; a \<open>PDict\<close> is a
  dictionary in insertion order (its keys are distinct in every dictionary Python builds).
\<close>

type_synonym byte = "8 word"
type_synonym path = string

datatype pyval =
    PNone
  | PBool bool
  | PInt int
  | PFloat rat
  | PStr string
  | PList "pyval list"
  | PDict "(string \<times> pyval) list"

text \<open>
  The exceptions the three functions can meet. \<open>FileNotFoundError\<close>, \<open>PermissionError\<close>,
  \<open>IsADirectoryError\<close> and \<open>NotADirectoryError\<close> are subclasses of \<open>OSError\<close> (Python's
  \<open>IOError\<close> is the same class); \<open>JSONDecodeError\<close> and \<open>UnicodeDecodeError\<close> are subclasses
  of \<open>ValueError\<close>. All of them are subclasses of \<open>Exception\<close>.
\<close>

datatype exn =
    ValueError
  | FileNotFoundError
  | PermissionError
  | IsADirectoryError
  | NotADirectoryError
  | OSError
  | KeyError
  | TypeError
  | AttributeError
  | JSONDecodeError
  | UnicodeDecodeError

fun is_IOError :: "exn \<Rightarrow> bool" where
  "is_IOError FileNotFoundError = True"
| "is_IOError PermissionError = True"
| "is_IOError IsADirectoryError = True"
| "is_IOError NotADirectoryError = True"
| "is_IOError OSError = True"
| "is_IOError _ = False"

text \<open>One constructor per \<^verbatim>\<open>print\<close> statement of the three functions, in source order.\<close>

datatype msg =
    MsgFileNotFound path               \<comment> \<open>line 50\<close>
  | MsgReadError path exn              \<comment> \<open>line 53\<close>
  | MsgDirMissing path                 \<comment> \<open>line 77\<close>
  | MsgScanning path                   \<comment> \<open>line 80\<close>
  | MsgRule                            \<comment> \<open>lines 81, 118, 150, 187\<close>
  | MsgSkip string                     \<comment> \<open>line 92\<close>
  | MsgProcessed string                \<comment> \<open>line 108\<close>
  | MsgProcessError path exn           \<comment> \<open>line 112\<close>
  | MsgDone nat                        \<comment> \<open>line 119\<close>
  | MsgSaved path                      \<comment> \<open>line 120\<close>
  | MsgUnexpected exn                  \<comment> \<open>line 125\<close>
  | MsgVerifying pyval                 \<comment> \<open>line 148\<close>
  | MsgAlgorithm pyval                 \<comment> \<open>line 149\<close>
  | MsgIntact string                   \<comment> \<open>line 171\<close>
  | MsgViolated string                 \<comment> \<open>line 174\<close>
  | MsgExpected pyval                  \<comment> \<open>line 175\<close>
  | MsgGot string                      \<comment> \<open>line 176\<close>
  | MsgCheckError string exn           \<comment> \<open>line 180\<close>
  | MsgAbsent string                   \<comment> \<open>line 183\<close>
  | MsgResults                         \<comment> \<open>line 188\<close>
  | MsgTotal nat                       \<comment> \<open>line 189\<close>
  | MsgPassed nat                      \<comment> \<open>line 190\<close>
  | MsgFailed nat                      \<comment> \<open>line 191\<close>
  | MsgMissing nat                     \<comment> \<open>line 192\<close>
  | MsgAllGood                         \<comment> \<open>line 195\<close>
  | MsgProblems                        \<comment> \<open>line 198\<close>
  | MsgManifestNotFound path           \<comment> \<open>line 202\<close>
  | MsgBadJson path                    \<comment> \<open>line 205\<close>
  | MsgVerifyUnexpected exn            \<comment> \<open>line 208\<close>

section \<open>The library the program calls\<close>

text \<open>
  \<^verbatim>\<open>hashlib\<close>, \<^verbatim>\<open>os\<close>, \<^verbatim>\<open>json\<close> and \<^verbatim>\<open>datetime\<close> are not code of the
  repository: they are parameters of the model.

  A \<^verbatim>\<open>hashlib\<close> object is a state \<open>'s\<close> with its constructor, \<^verbatim>\<open>update\<close> and
  \<^verbatim>\<open>hexdigest\<close>.
\<close>

record 's hasher =
  h_new :: 's
  h_update :: "'s \<Rightarrow> byte list \<Rightarrow> 's"
  h_hexdigest :: "'s \<Rightarrow> string"

record 's hashlib =
  md5 :: "'s hasher"
  sha1 :: "'s hasher"
  sha256 :: "'s hasher"

text \<open>
  A file opened with \<^verbatim>\<open>open(file_path, 'rb')\<close>: the bytes not yet read, and what
  happens once they are used up (end of file when \<open>fault\<close> is \<open>None\<close>, the exception of a
  failing read otherwise). \<^verbatim>\<open>file.read(n)\<close> returns the next \<open>n\<close> bytes, fewer at the
  end of the file, and \<^verbatim>\<open>b''\<close> at end of file.
\<close>

record file_obj =
  pending :: "byte list"
  fault :: "exn option"

definition file_read :: "nat \<Rightarrow> file_obj \<Rightarrow> exn + (byte list \<times> file_obj)" where
  "file_read n f =
     (if pending f = [] then
        (case fault f of None \<Rightarrow> Inr ([], f) | Some e \<Rightarrow> Inl e)
      else Inr (take n (pending f), f\<lparr>pending := drop n (pending f)\<rparr>))"

text \<open>
  The operating system and the other library calls, as the program sees them:
  \<^item> \<open>os_path_exists\<close>, \<open>os_path_join\<close>, \<open>os_path_relpath\<close>, \<open>os_path_getsize\<close>,
    \<open>os_path_getmtime\<close> are the functions of \<^verbatim>\<open>os.path\<close>;
  \<^item> \<open>os_walk\<close> is the whole sequence \<^verbatim>\<open>os.walk\<close> generates: triples
    \<^verbatim>\<open>(root, dirs, files)\<close>;
  \<^item> \<open>open_rb\<close> is \<^verbatim>\<open>open(p, 'rb')\<close>;
  \<^item> \<open>json_load\<close> is \<^verbatim>\<open>open(p, 'r', encoding='utf-8')\<close> followed by
    \<^verbatim>\<open>json.load\<close>;
  \<^item> \<open>json_dump\<close> is \<^verbatim>\<open>open(p, 'w', encoding='utf-8')\<close> followed by
    \<^verbatim>\<open>json.dump\<close>: \<open>None\<close> when the document was written, the exception otherwise;
  \<^item> \<open>now_isoformat\<close> is \<^verbatim>\<open>datetime.now().isoformat()\<close>.
\<close>

record os =
  os_path_exists :: "path \<Rightarrow> bool"
  os_walk :: "path \<Rightarrow> (path \<times> string list \<times> string list) list"
  os_path_join :: "path \<Rightarrow> string \<Rightarrow> path"
  os_path_relpath :: "path \<Rightarrow> path \<Rightarrow> exn + string"
  os_path_getsize :: "path \<Rightarrow> exn + int"
  os_path_getmtime :: "path \<Rightarrow> exn + rat"
  open_rb :: "path \<Rightarrow> exn + file_obj"
  json_load :: "path \<Rightarrow> exn + pyval"
  json_dump :: "path \<Rightarrow> pyval \<Rightarrow> exn option"
  now_isoformat :: string

section \<open>calculate_hash\<close>

definition block_size :: nat where
  "block_size = 65536"

text \<open>
  The \<^verbatim>\<open>while chunk:\<close> loop of lines 42 to 44: \<open>chunk\<close> is the block read last,
  \<open>st\<close> the state of \<^verbatim>\<open>hash_obj\<close>.
\<close>

function update_loop :: "'s hasher \<Rightarrow> 's \<Rightarrow> byte list \<Rightarrow> file_obj \<Rightarrow> exn + 's" where
  "update_loop h st chunk f =
     (if chunk = [] then Inr st
      else (case file_read block_size f of
              Inl e \<Rightarrow> Inl e
            | Inr (chunk', f') \<Rightarrow> update_loop h (h_update h st chunk) chunk' f'))"
  by pat_completeness auto
termination
proof (relation "measure (\<lambda>(h, st, chunk, f). length chunk + length (pending f))")
  show "wf (measure (\<lambda>(h, st, chunk, f). length chunk + length (pending f)))"
    by simp
next
  fix h :: "'s hasher" and st :: 's and chunk :: "byte list" and f :: file_obj
    and x2 :: "byte list \<times> file_obj" and chunk' f'
  assume "chunk \<noteq> []" and "file_read block_size f = Inr x2" and "(chunk', f') = x2"
  then have "length chunk' + length (pending f') \<le> length (pending f)"
    by (auto simp: file_read_def split: if_splits option.splits)
  with \<open>chunk \<noteq> []\<close>
  show "((h, h_update h st chunk, chunk', f'), (h, st, chunk, f))
          \<in> measure (\<lambda>(h, st, chunk, f). length chunk + length (pending f))"
    by (cases chunk) auto
qed

declare update_loop.simps [simp del]

text \<open>The body of the \<^verbatim>\<open>try\<close> of lines 32 to 47.\<close>

definition hash_stream :: "os \<Rightarrow> 's hasher \<Rightarrow> path \<Rightarrow> exn + string" where
  "hash_stream sys h file_path =
     (case open_rb sys file_path of
        Inl e \<Rightarrow> Inl e
      | Inr file \<Rightarrow>
          (case file_read block_size file of
             Inl e \<Rightarrow> Inl e
           | Inr (chunk, file') \<Rightarrow>
               (case update_loop h (h_new h) chunk file' of
                  Inl e \<Rightarrow> Inl e
                | Inr st \<Rightarrow> Inr (h_hexdigest h st))))"

text \<open>
  The \<^verbatim>\<open>try\<close> with its two handlers (lines 49 to 54): each prints and raises the
  exception again; any other exception passes unprinted.
\<close>

definition hash_with :: "os \<Rightarrow> 's hasher \<Rightarrow> path \<Rightarrow> msg list \<times> (exn + string)" where
  "hash_with sys h file_path =
     (case hash_stream sys h file_path of
        Inl e \<Rightarrow>
          (if e = FileNotFoundError then ([MsgFileNotFound file_path], Inl e)
           else if is_IOError e then ([MsgReadError file_path e], Inl e)
           else ([], Inl e))
      | Inr digest \<Rightarrow> ([], Inr digest))"

definition calculate_hash ::
  "os \<Rightarrow> 's hashlib \<Rightarrow> path \<Rightarrow> pyval \<Rightarrow> msg list \<times> (exn + string)" where
  "calculate_hash sys lib file_path algorithm =
     (if algorithm = PStr ''md5'' then hash_with sys (md5 lib) file_path
      else if algorithm = PStr ''sha1'' then hash_with sys (sha1 lib) file_path
      else if algorithm = PStr ''sha256'' then hash_with sys (sha256 lib) file_path
      else ([], Inl ValueError))"

section \<open>verify_integrity\<close>

text \<open>
  Python's \<^verbatim>\<open>x[key]\<close> with a string key, \<^verbatim>\<open>len(x)\<close> and \<^verbatim>\<open>x.items()\<close> on a
  value that \<^verbatim>\<open>json.load\<close> returned: a missing key is a \<open>KeyError\<close>, a value of the
  wrong type a \<open>TypeError\<close> or an \<open>AttributeError\<close>.
\<close>

fun subscript :: "pyval \<Rightarrow> string \<Rightarrow> exn + pyval" where
  "subscript (PDict kvs) k = (case map_of kvs k of None \<Rightarrow> Inl KeyError | Some v \<Rightarrow> Inr v)"
| "subscript _ k = Inl TypeError"

fun py_len :: "pyval \<Rightarrow> exn + nat" where
  "py_len (PDict kvs) = Inr (length kvs)"
| "py_len (PList xs) = Inr (length xs)"
| "py_len (PStr s) = Inr (length s)"
| "py_len _ = Inl TypeError"

fun py_items :: "pyval \<Rightarrow> exn + (string \<times> pyval) list" where
  "py_items (PDict kvs) = Inr kvs"
| "py_items _ = Inl AttributeError"

text \<open>
  \<^verbatim>\<open>os.path.join(directory_path, rel_path)\<close> of line 161: \<open>directory_path\<close> is whatever the
  manifest holds under \<^verbatim>\<open>directory\<close> when the caller gave none, and \<^verbatim>\<open>os.path.join\<close>
  raises \<open>TypeError\<close> on anything but a string.
\<close>

definition path_join :: "os \<Rightarrow> pyval \<Rightarrow> string \<Rightarrow> exn + path" where
  "path_join sys a b = (case a of PStr d \<Rightarrow> Inr (os_path_join sys d b) | _ \<Rightarrow> Inl TypeError)"

record verification_results =
  passed :: nat
  failed :: nat
  missing :: nat
  total :: nat

text \<open>
  Lines 163 to 184, for one entry whose \<open>file_path\<close> is composed: the counters and the output
  after it.
\<close>

definition check_file ::
  "os \<Rightarrow> 's hashlib \<Rightarrow> pyval \<Rightarrow> string \<Rightarrow> pyval \<Rightarrow> path \<Rightarrow>
   verification_results \<times> msg list \<Rightarrow> verification_results \<times> msg list" where
  "check_file sys lib algorithm rel_path file_info file_path st =
     (let res = fst st; out = snd st in
      if os_path_exists sys file_path then
        (case calculate_hash sys lib file_path algorithm of
           (printed, Inl e) \<Rightarrow>
             (res\<lparr>failed := failed res + 1\<rparr>, out @ printed @ [MsgCheckError rel_path e])
         | (printed, Inr current_hash) \<Rightarrow>
             (case subscript file_info ''hash'' of
                Inl e \<Rightarrow>
                  (res\<lparr>failed := failed res + 1\<rparr>, out @ printed @ [MsgCheckError rel_path e])
              | Inr original_hash \<Rightarrow>
                  if PStr current_hash = original_hash then
                    (res\<lparr>passed := passed res + 1\<rparr>, out @ printed @ [MsgIntact rel_path])
                  else
                    (res\<lparr>failed := failed res + 1\<rparr>,
                     out @ printed @
                       [MsgViolated rel_path, MsgExpected original_hash, MsgGot current_hash])))
      else (res\<lparr>missing := missing res + 1\<rparr>, out @ [MsgAbsent rel_path]))"

text \<open>The \<^verbatim>\<open>for\<close> loop of lines 160 to 184.\<close>

fun verify_entries ::
  "os \<Rightarrow> 's hashlib \<Rightarrow> pyval \<Rightarrow> pyval \<Rightarrow> (string \<times> pyval) list \<Rightarrow>
   verification_results \<times> msg list \<Rightarrow> msg list \<times> (exn + verification_results)" where
  "verify_entries sys lib directory_path algorithm [] st = (snd st, Inr (fst st))"
| "verify_entries sys lib directory_path algorithm ((rel_path, file_info) # rest) st =
     (case path_join sys directory_path rel_path of
        Inl e \<Rightarrow> (snd st, Inl e)
      | Inr file_path \<Rightarrow>
          verify_entries sys lib directory_path algorithm rest
            (check_file sys lib algorithm rel_path file_info file_path st))"

text \<open>Lines 141 to 184 on the loaded document: the counters when the loop has ended.\<close>

definition verify_loaded ::
  "os \<Rightarrow> 's hashlib \<Rightarrow> pyval \<Rightarrow> path option \<Rightarrow> msg list \<times> (exn + verification_results)" where
  "verify_loaded sys lib checksums directory_arg =
     (case subscript checksums ''metadata'' of
        Inl e \<Rightarrow> ([], Inl e)
      | Inr metadata \<Rightarrow>
     (case subscript metadata ''algorithm'' of
        Inl e \<Rightarrow> ([], Inl e)
      | Inr algorithm \<Rightarrow>
     (case subscript metadata ''directory'' of
        Inl e \<Rightarrow> ([], Inl e)
      | Inr original_dir \<Rightarrow>
     (let directory_path = (case directory_arg of None \<Rightarrow> original_dir | Some d \<Rightarrow> PStr d);
          out = [MsgVerifying directory_path, MsgAlgorithm algorithm, MsgRule]
      in
     (case subscript checksums ''files'' of
        Inl e \<Rightarrow> (out, Inl e)
      | Inr files \<Rightarrow>
     (case py_len files of
        Inl e \<Rightarrow> (out, Inl e)
      | Inr n \<Rightarrow>
     (case py_items files of
        Inl e \<Rightarrow> (out, Inl e)
      | Inr entries \<Rightarrow>
          verify_entries sys lib directory_path algorithm entries
            (\<lparr>passed = 0, failed = 0, missing = 0, total = n\<rparr>, out))))))))"

text \<open>Lines 138 to 184: opening and decoding the manifest, then the above.\<close>

definition verify_run ::
  "os \<Rightarrow> 's hashlib \<Rightarrow> path \<Rightarrow> path option \<Rightarrow> msg list \<times> (exn + verification_results)" where
  "verify_run sys lib checksum_file directory_arg =
     (case json_load sys checksum_file of
        Inl e \<Rightarrow> ([], Inl e)
      | Inr checksums \<Rightarrow> verify_loaded sys lib checksums directory_arg)"

definition summary :: "verification_results \<Rightarrow> msg list" where
  "summary res =
     [MsgRule, MsgResults, MsgTotal (total res), MsgPassed (passed res),
      MsgFailed (failed res), MsgMissing (missing res)]"

text \<open>
  The whole function: what it prints and what it returns. The three handlers of lines 201
  to 209 return \<^verbatim>\<open>False\<close> after one message.
\<close>

definition verify_integrity ::
  "os \<Rightarrow> 's hashlib \<Rightarrow> path \<Rightarrow> path option \<Rightarrow> msg list \<times> bool" where
  "verify_integrity sys lib checksum_file directory_arg =
     (case verify_run sys lib checksum_file directory_arg of
        (out, Inr res) \<Rightarrow>
          if failed res = 0 \<and> missing res = 0 then (out @ summary res @ [MsgAllGood], True)
          else (out @ summary res @ [MsgProblems], False)
      | (out, Inl e) \<Rightarrow>
          if e = FileNotFoundError then (out @ [MsgManifestNotFound checksum_file], False)
          else if e = JSONDecodeError then (out @ [MsgBadJson checksum_file], False)
          else (out @ [MsgVerifyUnexpected e], False))"

section \<open>create_checksum_file\<close>

text \<open>
  What the scan has built so far: \<^verbatim>\<open>checksums['files']\<close>, \<^verbatim>\<open>file_count\<close> and the
  output.
\<close>

record scan_state =
  entries :: "(string \<times> pyval) list"
  file_count :: nat
  printed :: "msg list"

text \<open>
  Lines 88 to 112, for one \<open>file_name\<close> of one \<open>root_dir\<close> (the \<^verbatim>\<open>root\<close> of the
  source). Every exception of the
  \<^verbatim>\<open>try\<close> is caught by line 111; the assignment of line 102 evaluates its right-hand
  side first, so a failing \<^verbatim>\<open>getsize\<close> or \<^verbatim>\<open>getmtime\<close> adds no entry.
\<close>

definition process_file ::
  "os \<Rightarrow> 's hashlib \<Rightarrow> path \<Rightarrow> string \<Rightarrow> pyval \<Rightarrow> path \<Rightarrow> string \<Rightarrow> scan_state \<Rightarrow> scan_state" where
  "process_file sys lib directory_path output_file algorithm root_dir file_name st =
     (let file_path = os_path_join sys root_dir file_name in
      if file_name = output_file then st\<lparr>printed := printed st @ [MsgSkip file_name]\<rparr>
      else
        (case calculate_hash sys lib file_path algorithm of
           (pr, Inl e) \<Rightarrow> st\<lparr>printed := printed st @ pr @ [MsgProcessError file_path e]\<rparr>
         | (pr, Inr file_hash) \<Rightarrow>
        (case os_path_relpath sys file_path directory_path of
           Inl e \<Rightarrow> st\<lparr>printed := printed st @ pr @ [MsgProcessError file_path e]\<rparr>
         | Inr rel_path \<Rightarrow>
        (case os_path_getsize sys file_path of
           Inl e \<Rightarrow> st\<lparr>printed := printed st @ pr @ [MsgProcessError file_path e]\<rparr>
         | Inr file_size \<Rightarrow>
        (case os_path_getmtime sys file_path of
           Inl e \<Rightarrow> st\<lparr>printed := printed st @ pr @ [MsgProcessError file_path e]\<rparr>
         | Inr mtime \<Rightarrow>
             st\<lparr>entries :=
                  AList.update rel_path
                    (PDict [(''hash'', PStr file_hash), (''size'', PInt file_size),
                            (''modified'', PFloat mtime)])
                    (entries st),
                file_count := file_count st + 1,
                printed := printed st @ pr @ [MsgProcessed rel_path]\<rparr>)))))"

text \<open>The two nested \<^verbatim>\<open>for\<close> loops of lines 86 and 87.\<close>

definition scan_files ::
  "os \<Rightarrow> 's hashlib \<Rightarrow> path \<Rightarrow> string \<Rightarrow> pyval \<Rightarrow> path \<Rightarrow> string list \<Rightarrow> scan_state \<Rightarrow> scan_state" where
  "scan_files sys lib directory_path output_file algorithm root_dir files st =
     fold (process_file sys lib directory_path output_file algorithm root_dir) files st"

definition scan_tree ::
  "os \<Rightarrow> 's hashlib \<Rightarrow> path \<Rightarrow> string \<Rightarrow> pyval \<Rightarrow> scan_state \<Rightarrow> scan_state" where
  "scan_tree sys lib directory_path output_file algorithm st =
     fold (\<lambda>(root_dir, dirs, files). scan_files sys lib directory_path output_file algorithm root_dir files)
       (os_walk sys directory_path) st"

text \<open>The dictionary \<^verbatim>\<open>checksums\<close> of lines 65 to 72, with its \<^verbatim>\<open>files\<close> filled.\<close>

definition manifest :: "os \<Rightarrow> path \<Rightarrow> pyval \<Rightarrow> (string \<times> pyval) list \<Rightarrow> pyval" where
  "manifest sys directory_path algorithm files =
     PDict [(''metadata'',
               PDict [(''created_at'', PStr (now_isoformat sys)),
                      (''algorithm'', algorithm),
                      (''directory'', PStr directory_path)]),
            (''files'', PDict files)]"

text \<open>
  The result of a call: the output, the value returned, and the document written to
  \<open>output_file\<close> when \<^verbatim>\<open>json.dump\<close> completed (\<open>None\<close> when nothing was written or the
  write failed).
\<close>

record build_result =
  b_printed :: "msg list"
  b_returned :: bool
  b_written :: "(path \<times> pyval) option"

definition create_checksum_file ::
  "os \<Rightarrow> 's hashlib \<Rightarrow> path \<Rightarrow> path \<Rightarrow> pyval \<Rightarrow> build_result" where
  "create_checksum_file sys lib directory_path output_file algorithm =
     (if \<not> os_path_exists sys directory_path then
        \<lparr>b_printed = [MsgDirMissing directory_path], b_returned = False, b_written = None\<rparr>
      else
        (let st = scan_tree sys lib directory_path output_file algorithm
                    \<lparr>entries = [], file_count = 0,
                     printed = [MsgScanning directory_path, MsgRule]\<rparr>;
             checksums = manifest sys directory_path algorithm (entries st)
         in case json_dump sys output_file checksums of
              Some e \<Rightarrow>
                \<lparr>b_printed = printed st @ [MsgUnexpected e], b_returned = False,
                 b_written = None\<rparr>
            | None \<Rightarrow>
                \<lparr>b_printed = printed st @ [MsgRule, MsgDone (file_count st), MsgSaved output_file],
                 b_returned = True, b_written = Some (output_file, checksums)\<rparr>))"

section \<open>A POSIX file system, for running the program on concrete trees\<close>

text \<open>
  A file tree without links. A regular file has its bytes, its modification time and whether
  this process may open it; a directory lists its entries in the order the system reports
  them.
\<close>

datatype node =
    File "byte list" rat bool
  | Dir "(string \<times> node) list"

fun is_Dir :: "node \<Rightarrow> bool" where
  "is_Dir (Dir es) = True"
| "is_Dir _ = False"

text \<open>
  \<open>fs_cwd\<close> is the working directory as the names from the root down; \<open>fs_decode\<close> is what
  \<^verbatim>\<open>json.load\<close> makes of a file's bytes.
\<close>

record posix =
  fs_root :: node
  fs_cwd :: "string list"
  fs_clock :: string
  fs_decode :: "byte list \<Rightarrow> exn + pyval"

text \<open>\<^verbatim>\<open>p.split('/')\<close>.\<close>

fun split_sep :: "string \<Rightarrow> string list" where
  "split_sep [] = [[]]"
| "split_sep (c # cs) =
     (if c = CHR ''/'' then [] # split_sep cs
      else (case split_sep cs of [] \<Rightarrow> [[c]] | w # ws \<Rightarrow> (c # w) # ws))"

definition isabs :: "string \<Rightarrow> bool" where
  "isabs p = (case p of [] \<Rightarrow> False | c # cs \<Rightarrow> c = CHR ''/'')"

text \<open>\<^verbatim>\<open>posixpath.join\<close> of two strings.\<close>

definition posix_join :: "string \<Rightarrow> string \<Rightarrow> string" where
  "posix_join a b =
     (if isabs b then b
      else if a = [] \<or> last a = CHR ''/'' then a @ b
      else a @ ''/'' @ b)"

text \<open>
  One step of \<^verbatim>\<open>posixpath.normpath\<close> on an absolute path: empty parts and \<^verbatim>\<open>.\<close> are
  dropped, \<^verbatim>\<open>..\<close> removes the part before it (and is dropped at the root).
\<close>

definition norm_step :: "string list \<Rightarrow> string \<Rightarrow> string list" where
  "norm_step acc c =
     (if c = [] \<or> c = ''.'' then acc
      else if c = ''..'' then butlast acc
      else acc @ [c])"

text \<open>
  The non-empty parts of \<^verbatim>\<open>os.path.abspath(p)\<close>: the place a path names.
\<close>

definition abs_parts :: "posix \<Rightarrow> string \<Rightarrow> string list" where
  "abs_parts fs p = foldl norm_step (if isabs p then [] else fs_cwd fs) (split_sep p)"

fun common_prefix_len :: "string list \<Rightarrow> string list \<Rightarrow> nat" where
  "common_prefix_len (x # xs) (y # ys) = (if x = y then Suc (common_prefix_len xs ys) else 0)"
| "common_prefix_len _ _ = 0"

fun join_parts :: "string list \<Rightarrow> string" where
  "join_parts [] = []"
| "join_parts [c] = c"
| "join_parts (c # cs) = c @ ''/'' @ join_parts cs"

text \<open>\<^verbatim>\<open>posixpath.relpath(p, start)\<close>.\<close>

definition posix_relpath :: "posix \<Rightarrow> string \<Rightarrow> string \<Rightarrow> exn + string" where
  "posix_relpath fs p start =
     (if p = [] then Inl ValueError
      else
        (let start_list = abs_parts fs start;
             path_list = abs_parts fs p;
             i = common_prefix_len start_list path_list;
             rel_list = replicate (length start_list - i) ''..'' @ drop i path_list
         in if rel_list = [] then Inr ''.'' else Inr (join_parts rel_list)))"

text \<open>The node at a place, and the place the system resolves a path to (if it exists).\<close>

fun lookup :: "node \<Rightarrow> string list \<Rightarrow> node option" where
  "lookup n [] = Some n"
| "lookup (Dir es) (c # cs) = (case map_of es c of None \<Rightarrow> None | Some n \<Rightarrow> lookup n cs)"
| "lookup (File bs t ok) (c # cs) = None"

fun resolve_from :: "node \<Rightarrow> string list \<Rightarrow> string list \<Rightarrow> string list option" where
  "resolve_from r pos [] = (case lookup r pos of None \<Rightarrow> None | Some n \<Rightarrow> Some pos)"
| "resolve_from r pos (c # cs) =
     (case lookup r pos of
        Some (Dir es) \<Rightarrow>
          if c = [] \<or> c = ''.'' then resolve_from r pos cs
          else if c = ''..'' then resolve_from r (butlast pos) cs
          else resolve_from r (pos @ [c]) cs
      | _ \<Rightarrow> None)"

definition locate :: "posix \<Rightarrow> string \<Rightarrow> node option" where
  "locate fs p =
     (if p = [] then None
      else (case resolve_from (fs_root fs) (if isabs p then [] else fs_cwd fs) (split_sep p) of
              None \<Rightarrow> None
            | Some pos \<Rightarrow> lookup (fs_root fs) pos))"

text \<open>
  \<^verbatim>\<open>os.walk(top)\<close>, top down, not following links, errors ignored: the directory itself,
  then each of its subdirectories in turn.
\<close>

fun walk_node :: "string \<Rightarrow> node \<Rightarrow> (string \<times> string list \<times> string list) list"
  and walk_children :: "string \<Rightarrow> (string \<times> node) list \<Rightarrow> (string \<times> string list \<times> string list) list"
  where
  "walk_node top_dir (Dir es) =
     (top_dir, map fst (filter (\<lambda>e. is_Dir (snd e)) es), map fst (filter (\<lambda>e. \<not> is_Dir (snd e)) es))
       # walk_children top_dir es"
| "walk_node top_dir (File bs t ok) = []"
| "walk_children top_dir [] = []"
| "walk_children top_dir (e # es) =
     (if is_Dir (snd e) then walk_node (posix_join top_dir (fst e)) (snd e) else [])
       @ walk_children top_dir es"

definition posix_walk :: "posix \<Rightarrow> string \<Rightarrow> (string \<times> string list \<times> string list) list" where
  "posix_walk fs top_dir = (case locate fs top_dir of None \<Rightarrow> [] | Some n \<Rightarrow> walk_node top_dir n)"

definition posix_open_rb :: "posix \<Rightarrow> string \<Rightarrow> exn + file_obj" where
  "posix_open_rb fs p =
     (case locate fs p of
        None \<Rightarrow> Inl FileNotFoundError
      | Some (Dir es) \<Rightarrow> Inl IsADirectoryError
      | Some (File bs t ok) \<Rightarrow>
          if ok then Inr \<lparr>pending = bs, fault = None\<rparr> else Inl PermissionError)"

definition posix_getsize :: "posix \<Rightarrow> string \<Rightarrow> exn + int" where
  "posix_getsize fs p =
     (case locate fs p of
        None \<Rightarrow> Inl FileNotFoundError
      | Some (Dir es) \<Rightarrow> Inr 4096
      | Some (File bs t ok) \<Rightarrow> Inr (int (length bs)))"

definition posix_getmtime :: "posix \<Rightarrow> string \<Rightarrow> exn + rat" where
  "posix_getmtime fs p =
     (case locate fs p of
        None \<Rightarrow> Inl FileNotFoundError
      | Some (Dir es) \<Rightarrow> Inr 0
      | Some (File bs t ok) \<Rightarrow> Inr t)"

definition posix_json_load :: "posix \<Rightarrow> string \<Rightarrow> exn + pyval" where
  "posix_json_load fs p =
     (case posix_open_rb fs p of Inl e \<Rightarrow> Inl e | Inr f \<Rightarrow> fs_decode fs (pending f))"

text \<open>
  \<^verbatim>\<open>open(p, 'w')\<close> succeeds on a file this process may open, and on a new name in an
  existing directory.
\<close>

definition posix_json_dump :: "posix \<Rightarrow> string \<Rightarrow> pyval \<Rightarrow> exn option" where
  "posix_json_dump fs p doc =
     (case locate fs p of
        Some (Dir es) \<Rightarrow> Some IsADirectoryError
      | Some (File bs t ok) \<Rightarrow> if ok then None else Some PermissionError
      | None \<Rightarrow>
          if p \<noteq> [] \<and> last p \<noteq> CHR ''/'' \<and>
             (case resolve_from (fs_root fs) (if isabs p then [] else fs_cwd fs)
                     (butlast (split_sep p)) of
                None \<Rightarrow> False
              | Some pos \<Rightarrow> (case lookup (fs_root fs) pos of Some (Dir es) \<Rightarrow> True | _ \<Rightarrow> False))
          then None else Some FileNotFoundError)"

definition posix_os :: "posix \<Rightarrow> os" where
  "posix_os fs =
     \<lparr>os_path_exists = (\<lambda>p. locate fs p \<noteq> None),
      os_walk = posix_walk fs,
      os_path_join = posix_join,
      os_path_relpath = posix_relpath fs,
      os_path_getsize = posix_getsize fs,
      os_path_getmtime = posix_getmtime fs,
      open_rb = posix_open_rb fs,
      json_load = posix_json_load fs,
      json_dump = posix_json_dump fs,
      now_isoformat = fs_clock fs\<rparr>"

text \<open>
  Writing a file: \<open>put n place f\<close> is the tree \<open>n\<close> with the file \<open>f\<close> at \<open>place\<close>, replacing
  what was there or added as the last entry of its directory. \<open>after_write\<close> is the file
  system once a file with a bare name has been written in the working directory and
  \<^verbatim>\<open>json.load\<close> decodes as \<open>dec\<close> says.
\<close>

fun put :: "node \<Rightarrow> string list \<Rightarrow> node \<Rightarrow> node"
  and put_in :: "(string \<times> node) list \<Rightarrow> string \<Rightarrow> string list \<Rightarrow> node \<Rightarrow> (string \<times> node) list"
  where
  "put n [] f = f"
| "put (Dir es) (c # cs) f = Dir (put_in es c cs f)"
| "put (File bs t ok) (c # cs) f = File bs t ok"
| "put_in [] c cs f = (if cs = [] then [(c, f)] else [])"
| "put_in (e # es) c cs f =
     (if fst e = c then (c, put (snd e) cs f) # es else e # put_in es c cs f)"

definition after_write ::
  "posix \<Rightarrow> string \<Rightarrow> byte list \<Rightarrow> rat \<Rightarrow> (byte list \<Rightarrow> exn + pyval) \<Rightarrow> posix" where
  "after_write fs name bytes t dec =
     fs\<lparr>fs_root := put (fs_root fs) (fs_cwd fs @ [name]) (File bytes t True), fs_decode := dec\<rparr>"

section \<open>A stand-in for hashlib\<close>

text \<open>
  Three small checksums in place of MD5, SHA-1 and SHA-256, with digests of two, three and
  four lower-case hexadecimal digits. They are used only to run the program on examples.
\<close>

definition hex_digit :: "nat \<Rightarrow> char" where
  "hex_digit n = ''0123456789abcdef'' ! (n mod 16)"

definition poly_hasher :: "nat \<Rightarrow> (nat \<Rightarrow> string) \<Rightarrow> nat hasher" where
  "poly_hasher m render =
     \<lparr>h_new = 0,
      h_update = (\<lambda>s bs. fold (\<lambda>b a. (a * 31 + unat b) mod m) bs s),
      h_hexdigest = render\<rparr>"

definition toy_hashlib :: "nat hashlib" where
  "toy_hashlib =
     \<lparr>md5 = poly_hasher 256 (\<lambda>n. [hex_digit (n div 16), hex_digit n]),
      sha1 = poly_hasher 4096 (\<lambda>n. [hex_digit (n div 256), hex_digit (n div 16), hex_digit n]),
      sha256 = poly_hasher 65536
        (\<lambda>n. [hex_digit (n div 4096), hex_digit (n div 256), hex_digit (n div 16), hex_digit n])\<rparr>"

section \<open>Reference notions and example data\<close>

text \<open>
  What the documentation of \<^verbatim>\<open>hashlib\<close> promises of \<^verbatim>\<open>update\<close>: feeding nothing
  changes nothing, and repeated calls are equivalent to a single call with the concatenation
  of the arguments.
\<close>

definition streaming :: "'s hasher \<Rightarrow> bool" where
  "streaming h \<longleftrightarrow>
     (\<forall>s. h_update h s [] = s) \<and>
     (\<forall>s a b. h_update h (h_update h s a) b = h_update h s (a @ b))"

text \<open>The digest of a byte string in one piece: \<^verbatim>\<open>hashlib.new(name, content).hexdigest()\<close>.\<close>

definition one_shot_digest :: "'s hasher \<Rightarrow> byte list \<Rightarrow> string" where
  "one_shot_digest h content = h_hexdigest h (h_update h (h_new h) content)"

text \<open>
  A small tree: \<^verbatim>\<open>/w/a.txt\<close> holds \<^verbatim>\<open>hello\<close>, \<^verbatim>\<open>/w/sub/b.txt\<close> holds
  \<^verbatim>\<open>world\<close>, \<^verbatim>\<open>/w/locked\<close> may not be opened; the working directory is \<^verbatim>\<open>/w\<close>.
\<close>

definition demo_fs :: posix where
  "demo_fs =
     \<lparr>fs_root =
        Dir [(''w'',
              Dir [(''a.txt'', File [104, 101, 108, 108, 111] 5 True),
                   (''sub'', Dir [(''b.txt'', File [119, 111, 114, 108, 100] 7 True)]),
                   (''locked'', File [1, 2] 3 False)])],
      fs_cwd = [''w''],
      fs_clock = ''2024-01-01T00:00:00'',
      fs_decode = (\<lambda>bs. Inl JSONDecodeError)\<rparr>"

text \<open>
  The same tree with a manifest file \<^verbatim>\<open>/w/checksums.json\<close> in it, which
  \<^verbatim>\<open>json.load\<close> decodes to \<open>doc\<close>.
\<close>

definition with_manifest :: "pyval \<Rightarrow> posix" where
  "with_manifest doc =
     \<lparr>fs_root =
        Dir [(''w'',
              Dir [(''a.txt'', File [104, 101, 108, 108, 111] 5 True),
                   (''sub'', Dir [(''b.txt'', File [119, 111, 114, 108, 100] 7 True)]),
                   (''locked'', File [1, 2] 3 False),
                   (''checksums.json'', File [123, 125] 9 True)])],
      fs_cwd = [''w''],
      fs_clock = ''2024-01-01T00:00:00'',
      fs_decode = (\<lambda>bs. if bs = [123, 125] then Inr doc else Inl JSONDecodeError)\<rparr>"

text \<open>
  A manifest for that tree: \<^verbatim>\<open>a.txt\<close> with its digest, \<^verbatim>\<open>locked\<close> (which
  cannot be read), \<^verbatim>\<open>gone.txt\<close> (which does not exist) and \<^verbatim>\<open>sub/b.txt\<close> with a
  digest that is not its own. The second manifest lists no file.
\<close>

definition sample_manifest :: "pyval \<Rightarrow> pyval" where
  "sample_manifest algorithm =
     PDict [(''metadata'',
               PDict [(''created_at'', PStr ''2024-01-01T00:00:00''),
                      (''algorithm'', algorithm),
                      (''directory'', PStr ''.'')]),
            (''files'',
               PDict [(''a.txt'', PDict [(''hash'', PStr ''18d2''), (''size'', PInt 5), (''modified'', PFloat 5)]),
                      (''locked'', PDict [(''hash'', PStr ''0000''), (''size'', PInt 2), (''modified'', PFloat 3)]),
                      (''gone.txt'', PDict [(''hash'', PStr ''0000''), (''size'', PInt 0), (''modified'', PFloat 1)]),
                      (''sub/b.txt'', PDict [(''hash'', PStr ''ffff''), (''size'', PInt 5), (''modified'', PFloat 7)])])]"

definition empty_manifest :: "pyval \<Rightarrow> pyval" where
  "empty_manifest algorithm =
     PDict [(''metadata'',
               PDict [(''created_at'', PStr ''2024-01-01T00:00:00''),
                      (''algorithm'', algorithm),
                      (''directory'', PStr ''.'')]),
            (''files'', PDict [])]"



subsection \<open>What the scan computes, stated apart from the loops\<close>

text \<open>
  The files \<^verbatim>\<open>os.walk\<close> reports, each with the \<^verbatim>\<open>root\<close> it is reported under, in the
  order the two loops of lines 86 and 87 meet them.
\<close>

definition walked_files :: "os \<Rightarrow> path \<Rightarrow> (path \<times> string) list" where
  "walked_files sys directory_path =
     concat (map (\<lambda>(root_dir, dirs, files). map (Pair root_dir) files) (os_walk sys directory_path))"

text \<open>
  The entry one walked file contributes to \<^verbatim>\<open>checksums['files']\<close>: none when it is
  skipped (line 91) or when hashing it, \<^verbatim>\<open>relpath\<close>, \<^verbatim>\<open>getsize\<close> or
  \<^verbatim>\<open>getmtime\<close> raises; the file is successfully processed when there is one.
\<close>

definition file_record ::
  "os \<Rightarrow> 's hashlib \<Rightarrow> path \<Rightarrow> string \<Rightarrow> pyval \<Rightarrow> path \<times> string \<Rightarrow> (string \<times> pyval) option" where
  "file_record sys lib directory_path output_file algorithm walked =
     (let file_path = os_path_join sys (fst walked) (snd walked) in
      if snd walked = output_file then None
      else
        (case snd (calculate_hash sys lib file_path algorithm) of
           Inl e \<Rightarrow> None
         | Inr file_hash \<Rightarrow>
        (case os_path_relpath sys file_path directory_path of
           Inl e \<Rightarrow> None
         | Inr rel_path \<Rightarrow>
        (case os_path_getsize sys file_path of
           Inl e \<Rightarrow> None
         | Inr file_size \<Rightarrow>
        (case os_path_getmtime sys file_path of
           Inl e \<Rightarrow> None
         | Inr mtime \<Rightarrow>
             Some (rel_path,
                   PDict [(''hash'', PStr file_hash), (''size'', PInt file_size),
                          (''modified'', PFloat mtime)]))))))"

text \<open>
  The assignment of line 102 on the mapping built so far, the mapping all walked files
  leave, and the number of files successfully processed.
\<close>

definition store :: "(string \<times> pyval) list \<Rightarrow> (string \<times> pyval) option \<Rightarrow> (string \<times> pyval) list" where
  "store es r = (case r of None \<Rightarrow> es | Some (k, v) \<Rightarrow> AList.update k v es)"

definition listed ::
  "os \<Rightarrow> 's hashlib \<Rightarrow> path \<Rightarrow> string \<Rightarrow> pyval \<Rightarrow> (string \<times> pyval) list" where
  "listed sys lib directory_path output_file algorithm =
     fold (\<lambda>w es. store es (file_record sys lib directory_path output_file algorithm w))
       (walked_files sys directory_path) []"

definition processed_count :: "os \<Rightarrow> 's hashlib \<Rightarrow> path \<Rightarrow> string \<Rightarrow> pyval \<Rightarrow> nat" where
  "processed_count sys lib directory_path output_file algorithm =
     length (List.map_filter (file_record sys lib directory_path output_file algorithm)
               (walked_files sys directory_path))"

subsection \<open>Well-formed trees\<close>

text \<open>
  A name a directory can list: not empty, without a separator, and neither \<^verbatim>\<open>.\<close> nor
  \<^verbatim>\<open>..\<close>. In a well-formed tree every listed name is one, and no directory lists a
  name twice.
\<close>

definition bare_name :: "string \<Rightarrow> bool" where
  "bare_name n \<longleftrightarrow> n \<noteq> [] \<and> CHR ''/'' \<notin> set n \<and> n \<noteq> ''.'' \<and> n \<noteq> ''..''"

fun wf_node :: "node \<Rightarrow> bool" where
  "wf_node (File bs t ok) = True"
| "wf_node (Dir es) =
     (distinct (map fst es) \<and> (\<forall>e \<in> set es. bare_name (fst e) \<and> wf_node (snd e)))"

subsection \<open>More example data\<close>

text \<open>
  The manifest that a build over the small tree writes (directory \<^verbatim>\<open>.\<close>, SHA-256 of the
  stand-in), and a tree in which an earlier build has left its manifest at
  \<^verbatim>\<open>/w/out/checksums.json\<close>.
\<close>

definition demo_manifest :: pyval where
  "demo_manifest =
     PDict [(''metadata'',
               PDict [(''created_at'', PStr ''2024-01-01T00:00:00''),
                      (''algorithm'', PStr ''sha256''),
                      (''directory'', PStr ''.'')]),
            (''files'',
               PDict [(''a.txt'',
                         PDict [(''hash'', PStr ''18d2''), (''size'', PInt 5), (''modified'', PFloat 5)]),
                      (''sub/b.txt'',
                         PDict [(''hash'', PStr ''1b92''), (''size'', PInt 5), (''modified'', PFloat 7)])])]"

definition rebuild_fs :: posix where
  "rebuild_fs =
     \<lparr>fs_root =
        Dir [(''w'',
              Dir [(''a.txt'', File [104, 101, 108, 108, 111] 5 True),
                   (''out'', Dir [(''checksums.json'', File [123, 125] 9 True)])])],
      fs_cwd = [''w''],
      fs_clock = ''2024-01-02T00:00:00'',
      fs_decode = (\<lambda>bs. Inl JSONDecodeError)\<rparr>"

text \<open>
  The manifest that a build over that tree writes when it is called with the directory
  \<^verbatim>\<open>.\<close> and the output file \<^verbatim>\<open>out/checksums.json\<close>, and the tree after that
  build: the manifest file holds the new document, everything else is as it was.
\<close>

definition rebuilt_manifest :: pyval where
  "rebuilt_manifest =
     PDict [(''metadata'',
               PDict [(''created_at'', PStr ''2024-01-02T00:00:00''),
                      (''algorithm'', PStr ''sha256''),
                      (''directory'', PStr ''.'')]),
            (''files'',
               PDict [(''a.txt'',
                         PDict [(''hash'', PStr ''18d2''), (''size'', PInt 5), (''modified'', PFloat 5)]),
                      (''out/checksums.json'',
                         PDict [(''hash'', PStr ''0f62''), (''size'', PInt 2), (''modified'', PFloat 9)])])]"

definition rebuilt_fs :: posix where
  "rebuilt_fs =
     \<lparr>fs_root =
        Dir [(''w'',
              Dir [(''a.txt'', File [104, 101, 108, 108, 111] 5 True),
                   (''out'', Dir [(''checksums.json'', File [123, 10, 125] 10 True)])])],
      fs_cwd = [''w''],
      fs_clock = ''2024-01-02T00:00:01'',
      fs_decode =
        (\<lambda>bs. if bs = [123, 10, 125] then Inr rebuilt_manifest else Inl JSONDecodeError)\<rparr>"

section \<open>Properties of calculate_hash\<close>

lemma update_loop_reads_all:
  assumes "streaming h" and "fault f = None" and "chunk = [] \<longrightarrow> pending f = []"
  shows "update_loop h st chunk f = Inr (h_update h st (chunk @ pending f))"
  using assms
proof (induction h st chunk f rule: update_loop.induct)
  case (1 h st chunk f)
  show ?case
  proof (cases "chunk = []")
    case True
    with "1.prems" show ?thesis
      by (simp add: update_loop.simps streaming_def)
  next
    case False
    show ?thesis
    proof (cases "pending f = []")
      case True
      with False "1.prems" show ?thesis
        by (simp add: update_loop.simps [of h st chunk f] update_loop.simps [of h _ "[]"]
              file_read_def streaming_def)
    next
      case nonempty: False
      let ?chunk' = "take block_size (pending f)"
      let ?f' = "f\<lparr>pending := drop block_size (pending f)\<rparr>"
      have rd: "file_read block_size f = Inr (?chunk', ?f')"
        using nonempty by (simp add: file_read_def)
      have ne: "?chunk' \<noteq> []"
        using nonempty by (simp add: block_size_def)
      have "update_loop h (h_update h st chunk) ?chunk' ?f'
              = Inr (h_update h (h_update h st chunk) (?chunk' @ pending ?f'))"
        using "1.IH" [OF False rd refl] "1.prems" ne by simp
      then show ?thesis
        using False rd "1.prems"(1)
        by (simp add: update_loop.simps [of h st chunk f] streaming_def)
    qed
  qed
qed

lemma hash_stream_digest:
  assumes "streaming h" and "open_rb sys file_path = Inr \<lparr>pending = content, fault = None\<rparr>"
  shows "hash_stream sys h file_path = Inr (one_shot_digest h content)"
proof (cases "content = []")
  case True
  with assms show ?thesis
    by (simp add: hash_stream_def file_read_def update_loop.simps one_shot_digest_def
          streaming_def)
next
  case False
  let ?f = "\<lparr>pending = content, fault = None\<rparr>"
  let ?rest = "?f\<lparr>pending := drop block_size content\<rparr>"
  have rd: "file_read block_size ?f = Inr (take block_size content, ?rest)"
    using False by (simp add: file_read_def)
  have ne: "take block_size content \<noteq> []"
    using False by (simp add: block_size_def)
  have "update_loop h (h_new h) (take block_size content) ?rest
          = Inr (h_update h (h_new h) content)"
    using update_loop_reads_all [OF assms(1), of ?rest "take block_size content" "h_new h"] ne
    by simp
  then show ?thesis
    using assms(2) rd by (simp add: hash_stream_def one_shot_digest_def)
qed

lemma streaming_poly_hasher: "streaming (poly_hasher m render)"
  by (simp add: streaming_def poly_hasher_def)

lemma demo_open_a:
  "open_rb (posix_os demo_fs) ''a.txt'' = Inr \<lparr>pending = [104, 101, 108, 108, 111], fault = None\<rparr>"
  by (simp add: posix_os_def posix_open_rb_def locate_def demo_fs_def isabs_def)

text \<open>
  C8. For a file that opens and reads to its end with content \<open>content\<close>, and each of the
  three algorithm tags, \<open>calculate_hash\<close> prints nothing and returns what the \<^verbatim>\<open>hashlib\<close>
  object of that tag answers for \<open>content\<close> fed in one piece: a function of the content and
  the algorithm alone, in which the block size of 65536 does not appear. The digest is
  rendered by \<^verbatim>\<open>hexdigest\<close> of \<^verbatim>\<open>hashlib\<close> and returned as it is. The law that
  \<^verbatim>\<open>update\<close> may be fed in pieces is the library's, and is assumed of it.
\<close>

theorem calculate_hash_is_digest:
  assumes "algorithm = PStr ''md5'' \<and> h = md5 lib \<or>
           algorithm = PStr ''sha1'' \<and> h = sha1 lib \<or>
           algorithm = PStr ''sha256'' \<and> h = sha256 lib"
    and "streaming h"
    and "open_rb sys file_path = Inr \<lparr>pending = content, fault = None\<rparr>"
  shows "calculate_hash sys lib file_path algorithm = ([], Inr (one_shot_digest h content))"
  using assms(1) hash_stream_digest [OF assms(2,3)]
  by (auto simp: calculate_hash_def hash_with_def)

theorem calculate_hash_is_digest_witness:
  "calculate_hash (posix_os demo_fs) toy_hashlib ''a.txt'' (PStr ''sha256'') = ([], Inr ''18d2'')
   \<and> one_shot_digest (sha256 toy_hashlib) [104, 101, 108, 108, 111] = ''18d2''"
proof -
  have d: "one_shot_digest (sha256 toy_hashlib) [104, 101, 108, 108, 111] = ''18d2''"
    by (simp add: one_shot_digest_def toy_hashlib_def poly_hasher_def hex_digit_def)
  have s: "streaming (sha256 toy_hashlib)"
    by (simp add: toy_hashlib_def streaming_poly_hasher)
  show ?thesis
    using calculate_hash_is_digest [of "PStr ''sha256''" "sha256 toy_hashlib" toy_hashlib
        "posix_os demo_fs" "''a.txt''" "[104, 101, 108, 108, 111]", OF _ s demo_open_a] d
    by simp
qed

text \<open>
  C9. With an algorithm that is none of \<^verbatim>\<open>md5\<close>, \<^verbatim>\<open>sha1\<close>, \<^verbatim>\<open>sha256\<close>,
  \<open>calculate_hash\<close> raises \<open>ValueError\<close> and prints nothing, whatever the path and whatever
  the system would answer: the result does not depend on \<open>sys\<close>, so no file is looked for,
  and the not-found error (which would print its message) is never the one raised.
\<close>

theorem calculate_hash_unsupported_algorithm:
  assumes "algorithm \<noteq> PStr ''md5''" and "algorithm \<noteq> PStr ''sha1''"
    and "algorithm \<noteq> PStr ''sha256''"
  shows "calculate_hash sys lib file_path algorithm = ([], Inl ValueError)"
  using assms by (simp add: calculate_hash_def)

theorem calculate_hash_unsupported_algorithm_witness:
  "calculate_hash (posix_os demo_fs) toy_hashlib ''no/such/file'' (PStr ''sha512'')
     = ([], Inl ValueError)
   \<and> open_rb (posix_os demo_fs) ''no/such/file'' = Inl FileNotFoundError"
proof -
  have "open_rb (posix_os demo_fs) ''no/such/file'' = Inl FileNotFoundError"
    by (simp add: posix_os_def posix_open_rb_def locate_def demo_fs_def isabs_def)
  then show ?thesis
    using calculate_hash_unsupported_algorithm
      [of "PStr ''sha512''" "posix_os demo_fs" toy_hashlib "''no/such/file''"]
    by simp
qed

section \<open>Evaluating the program on the examples\<close>

lemmas posix_eval =
  posix_os_def posix_open_rb_def posix_json_load_def posix_json_dump_def posix_getsize_def
  posix_getmtime_def posix_walk_def posix_relpath_def abs_parts_def norm_step_def
  locate_def isabs_def posix_join_def

lemmas program_eval =
  verify_integrity_def verify_run_def verify_loaded_def check_file_def path_join_def
  calculate_hash_def hash_with_def hash_stream_def file_read_def update_loop.simps block_size_def
  summary_def create_checksum_file_def scan_tree_def scan_files_def process_file_def
  manifest_def

lemmas toy_eval = toy_hashlib_def poly_hasher_def hex_digit_def

section \<open>Properties of verify_integrity\<close>

lemma check_file_counts:
  assumes "check_file sys lib algorithm rel_path file_info file_path (res, out) = (res', out')"
  shows "total res' = total res \<and>
         (passed res' = passed res + 1 \<and> failed res' = failed res \<and> missing res' = missing res \<or>
          passed res' = passed res \<and> failed res' = failed res + 1 \<and> missing res' = missing res \<or>
          passed res' = passed res \<and> failed res' = failed res \<and> missing res' = missing res + 1)"
  using assms
  by (auto simp: check_file_def Let_def split: if_splits prod.splits sum.splits)

lemma verify_entries_counts:
  assumes "verify_entries sys lib directory_path algorithm es st = (out', Inr res')"
  shows "total res' = total (fst st) \<and>
         passed res' + failed res' + missing res'
           = passed (fst st) + failed (fst st) + missing (fst st) + length es \<and>
         failed (fst st) \<le> failed res'"
  using assms
proof (induction es arbitrary: st)
  case Nil
  then show ?case by simp
next
  case (Cons entry es)
  obtain rel_path file_info where entry: "entry = (rel_path, file_info)"
    by (cases entry)
  from Cons.prems entry obtain file_path where
    fp: "path_join sys directory_path rel_path = Inr file_path"
    by (auto split: sum.splits)
  let ?st' = "check_file sys lib algorithm rel_path file_info file_path st"
  from Cons.prems entry fp have run: "verify_entries sys lib directory_path algorithm es ?st' = (out', Inr res')"
    by simp
  have step: "check_file sys lib algorithm rel_path file_info file_path (fst st, snd st) = (fst ?st', snd ?st')"
    by simp
  from check_file_counts [OF step] Cons.IH [OF run] show ?case
    by auto
qed



lemma verify_loaded_reaches_summary:
  assumes "verify_loaded sys lib checksums directory_arg = (out, Inr res)"
  shows "\<exists>es. subscript checksums ''files'' = Inr (PDict es) \<and> total res = length es \<and>
              passed res + failed res + missing res = total res"
proof -
  from assms obtain metadata algorithm original_dir files n entries' where
    files: "subscript checksums ''files'' = Inr files" and
    n: "py_len files = Inr n" and
    items: "py_items files = Inr entries'" and
    run: "verify_entries sys lib
            (case directory_arg of None \<Rightarrow> original_dir | Some d \<Rightarrow> PStr d) algorithm entries'
            (\<lparr>passed = 0, failed = 0, missing = 0, total = n\<rparr>,
             [MsgVerifying (case directory_arg of None \<Rightarrow> original_dir | Some d \<Rightarrow> PStr d),
              MsgAlgorithm algorithm, MsgRule]) = (out, Inr res)"
    by (auto simp: verify_loaded_def Let_def split: sum.splits)
  from items have d: "files = PDict entries'"
    by (cases files) simp_all
  with n have "n = length entries'" by simp
  with verify_entries_counts [OF run] files d show ?thesis
    by simp
qed




text \<open>
  C2. A run that reaches the summary (the loop of lines 160 to 184 has ended with the counters
  \<open>res\<close>) prints the summary and returns \<^verbatim>\<open>True\<close> exactly when \<open>failed\<close> and
  \<open>missing\<close> are both zero; otherwise it prints the other verdict and returns
  \<^verbatim>\<open>False\<close>. Both are zero exactly when every entry was matched.
\<close>

theorem verdict_iff_no_failed_no_missing:
  assumes "verify_run sys lib checksum_file directory_arg = (out, Inr res)"
  shows "verify_integrity sys lib checksum_file directory_arg =
           (out @ summary res @
              [if failed res = 0 \<and> missing res = 0 then MsgAllGood else MsgProblems],
            failed res = 0 \<and> missing res = 0)
         \<and> (failed res = 0 \<and> missing res = 0 \<longleftrightarrow> passed res = total res)"
proof -
  from assms obtain checksums where
    "verify_loaded sys lib checksums directory_arg = (out, Inr res)"
    by (auto simp: verify_run_def split: sum.splits)
  from verify_loaded_reaches_summary [OF this]
  have "passed res + failed res + missing res = total res"
    by blast
  then have "failed res = 0 \<and> missing res = 0 \<longleftrightarrow> passed res = total res"
    by auto
  with assms show ?thesis
    by (simp add: verify_integrity_def)
qed

theorem verdict_iff_witness:
  "verify_run (posix_os (with_manifest (sample_manifest (PStr ''sha256'')))) toy_hashlib
       ''checksums.json'' None
     = ([MsgVerifying (PStr ''.''), MsgAlgorithm (PStr ''sha256''), MsgRule,
         MsgIntact ''a.txt'', MsgReadError ''./locked'' PermissionError,
         MsgCheckError ''locked'' PermissionError, MsgAbsent ''gone.txt'',
         MsgViolated ''sub/b.txt'', MsgExpected (PStr ''ffff''), MsgGot ''1b92''],
        Inr \<lparr>passed = 1, failed = 2, missing = 1, total = 4\<rparr>)
   \<and> snd (verify_integrity (posix_os (with_manifest (sample_manifest (PStr ''sha256''))))
            toy_hashlib ''checksums.json'' None) = False
   \<and> verify_run (posix_os (with_manifest (empty_manifest (PStr ''sha256'')))) toy_hashlib
       ''checksums.json'' None
     = ([MsgVerifying (PStr ''.''), MsgAlgorithm (PStr ''sha256''), MsgRule],
        Inr \<lparr>passed = 0, failed = 0, missing = 0, total = 0\<rparr>)
   \<and> snd (verify_integrity (posix_os (with_manifest (empty_manifest (PStr ''sha256''))))
            toy_hashlib ''checksums.json'' None) = True"
proof -
  have r1: "verify_run (posix_os (with_manifest (sample_manifest (PStr ''sha256'')))) toy_hashlib
       ''checksums.json'' None
     = ([MsgVerifying (PStr ''.''), MsgAlgorithm (PStr ''sha256''), MsgRule,
         MsgIntact ''a.txt'', MsgReadError ''./locked'' PermissionError,
         MsgCheckError ''locked'' PermissionError, MsgAbsent ''gone.txt'',
         MsgViolated ''sub/b.txt'', MsgExpected (PStr ''ffff''), MsgGot ''1b92''],
        Inr \<lparr>passed = 1, failed = 2, missing = 1, total = 4\<rparr>)"
    by (simp add: program_eval posix_eval toy_eval with_manifest_def sample_manifest_def)
  have r2: "verify_run (posix_os (with_manifest (empty_manifest (PStr ''sha256'')))) toy_hashlib
       ''checksums.json'' None
     = ([MsgVerifying (PStr ''.''), MsgAlgorithm (PStr ''sha256''), MsgRule],
        Inr \<lparr>passed = 0, failed = 0, missing = 0, total = 0\<rparr>)"
    by (simp add: program_eval posix_eval toy_eval with_manifest_def empty_manifest_def)
  show ?thesis
    using verdict_iff_no_failed_no_missing [OF r1] verdict_iff_no_failed_no_missing [OF r2] r1 r2
    by simp
qed

text \<open>
  C3. One entry changes exactly one of \<open>passed\<close>, \<open>failed\<close>, \<open>missing\<close>, by one, and
  leaves \<open>total\<close> alone; and in every run that reaches the summary, \<open>total\<close> is the number
  of entries of the manifest's \<^verbatim>\<open>files\<close> and \<open>passed + failed + missing = total\<close>.
\<close>

theorem counters_partition_the_entries:
  "(\<forall>res' out'. check_file sys lib algorithm rel_path file_info file_path (res, out) = (res', out') \<longrightarrow>
      total res' = total res \<and>
      (passed res' = passed res + 1 \<and> failed res' = failed res \<and> missing res' = missing res \<or>
       passed res' = passed res \<and> failed res' = failed res + 1 \<and> missing res' = missing res \<or>
       passed res' = passed res \<and> failed res' = failed res \<and> missing res' = missing res + 1))
   \<and> (\<forall>out_end res_end. verify_run sys lib checksum_file directory_arg = (out_end, Inr res_end) \<longrightarrow>
        (\<exists>checksums es. json_load sys checksum_file = Inr checksums \<and>
            subscript checksums ''files'' = Inr (PDict es) \<and>
            total res_end = length es \<and>
            passed res_end + failed res_end + missing res_end = total res_end))"
proof (intro conjI allI impI)
  fix res' out'
  assume "check_file sys lib algorithm rel_path file_info file_path (res, out) = (res', out')"
  from check_file_counts [OF this]
  show "total res' = total res" and 
    "passed res' = passed res + 1 \<and> failed res' = failed res \<and> missing res' = missing res \<or>
       passed res' = passed res \<and> failed res' = failed res + 1 \<and> missing res' = missing res \<or>
       passed res' = passed res \<and> failed res' = failed res \<and> missing res' = missing res + 1"
    by simp_all
next
  fix out_end res_end
  assume run: "verify_run sys lib checksum_file directory_arg = (out_end, Inr res_end)"
  then obtain checksums where
    ld: "json_load sys checksum_file = Inr checksums" and
    "verify_loaded sys lib checksums directory_arg = (out_end, Inr res_end)"
    by (auto simp: verify_run_def split: sum.splits)
  from verify_loaded_reaches_summary [OF this(2)] ld
  show "\<exists>checksums es. json_load sys checksum_file = Inr checksums \<and>
            subscript checksums ''files'' = Inr (PDict es) \<and>
            total res_end = length es \<and>
            passed res_end + failed res_end + missing res_end = total res_end"
    by auto
qed

theorem counters_partition_witness:
  "check_file (posix_os (with_manifest (sample_manifest (PStr ''sha256'')))) toy_hashlib
      (PStr ''sha256'') ''gone.txt'' PNone ''./gone.txt''
      (\<lparr>passed = 1, failed = 1, missing = 0, total = 4\<rparr>, [])
     = (\<lparr>passed = 1, failed = 1, missing = 1, total = 4\<rparr>, [MsgAbsent ''gone.txt''])
   \<and> (\<exists>out. verify_run (posix_os (with_manifest (sample_manifest (PStr ''sha256'')))) toy_hashlib
       ''checksums.json'' None
     = (out, Inr \<lparr>passed = 1, failed = 2, missing = 1, total = 4\<rparr>))
   \<and> (\<exists>es. subscript (sample_manifest (PStr ''sha256'')) ''files'' = Inr (PDict es) \<and> length es = 4)"
proof -
  let ?sys = "posix_os (with_manifest (sample_manifest (PStr ''sha256'')))"
  have c: "check_file ?sys toy_hashlib
      (PStr ''sha256'') ''gone.txt'' PNone ''./gone.txt''
      (\<lparr>passed = 1, failed = 1, missing = 0, total = 4\<rparr>, [])
     = (\<lparr>passed = 1, failed = 1, missing = 1, total = 4\<rparr>, [MsgAbsent ''gone.txt''])"
    by (simp add: program_eval posix_eval with_manifest_def)
  have r: "verify_run ?sys toy_hashlib ''checksums.json'' None
     = ([MsgVerifying (PStr ''.''), MsgAlgorithm (PStr ''sha256''), MsgRule,
         MsgIntact ''a.txt'', MsgReadError ''./locked'' PermissionError,
         MsgCheckError ''locked'' PermissionError, MsgAbsent ''gone.txt'',
         MsgViolated ''sub/b.txt'', MsgExpected (PStr ''ffff''), MsgGot ''1b92''],
        Inr \<lparr>passed = 1, failed = 2, missing = 1, total = 4\<rparr>)"
    by (simp add: program_eval posix_eval toy_eval with_manifest_def sample_manifest_def)
  have l: "json_load ?sys ''checksums.json'' = Inr (sample_manifest (PStr ''sha256''))"
    by (simp add: posix_eval with_manifest_def)
  from counters_partition_the_entries
         [of ?sys toy_hashlib "PStr ''sha256''" "''gone.txt''" PNone "''./gone.txt''"
            "\<lparr>passed = 1, failed = 1, missing = 0, total = 4\<rparr>" "[]" "''checksums.json''" None]
  have "\<exists>checksums es. json_load ?sys ''checksums.json'' = Inr checksums \<and>
            subscript checksums ''files'' = Inr (PDict es) \<and>
            total \<lparr>passed = 1, failed = 2, missing = 1, total = 4\<rparr> = length es"
    using r by blast
  with l c r show ?thesis
    by auto
qed






section \<open>Properties of create_checksum_file\<close>

lemmas record_eval = walked_files_def file_record_def store_def listed_def processed_count_def

lemma process_file_record:
  "entries (process_file sys lib directory_path output_file algorithm root_dir file_name st)
     = store (entries st) (file_record sys lib directory_path output_file algorithm (root_dir, file_name))
   \<and> file_count (process_file sys lib directory_path output_file algorithm root_dir file_name st)
     = file_count st +
         (case file_record sys lib directory_path output_file algorithm (root_dir, file_name) of
            None \<Rightarrow> 0 | Some r \<Rightarrow> 1)"
  by (auto simp: process_file_def file_record_def store_def Let_def split: prod.splits sum.splits)

lemma scan_tree_as_fold:
  "scan_tree sys lib directory_path output_file algorithm st
     = fold (\<lambda>w. process_file sys lib directory_path output_file algorithm (fst w) (snd w))
         (walked_files sys directory_path) st"
proof -
  have inner: "\<And>root_dir files st.
      fold (\<lambda>w. process_file sys lib directory_path output_file algorithm (fst w) (snd w))
        (map (Pair root_dir) files) st
      = scan_files sys lib directory_path output_file algorithm root_dir files st"
    by (simp add: scan_files_def fold_map comp_def)
  have "\<And>st. fold (\<lambda>w. process_file sys lib directory_path output_file algorithm (fst w) (snd w))
          (concat (map (\<lambda>(root_dir, dirs, files). map (Pair root_dir) files) ws)) st
        = fold (\<lambda>(root_dir, dirs, files).
                  scan_files sys lib directory_path output_file algorithm root_dir files) ws st"
    for ws
    by (induction ws) (auto simp: inner)
  from this [of "os_walk sys directory_path" st] show ?thesis
    by (simp only: scan_tree_def walked_files_def)
qed

lemma fold_process_file:
  "entries (fold (\<lambda>w. process_file sys lib directory_path output_file algorithm (fst w) (snd w)) ws st)
     = fold (\<lambda>w es. store es (file_record sys lib directory_path output_file algorithm w)) ws (entries st)
   \<and> file_count (fold (\<lambda>w. process_file sys lib directory_path output_file algorithm (fst w) (snd w)) ws st)
     = file_count st
         + length (List.map_filter (file_record sys lib directory_path output_file algorithm) ws)"
proof (induction ws arbitrary: st)
  case Nil
  show ?case by (simp add: List.map_filter_simps)
next
  case (Cons w ws)
  obtain root_dir file_name where w: "w = (root_dir, file_name)" by (cases w)
  show ?case
    using Cons.IH [of "process_file sys lib directory_path output_file algorithm root_dir file_name st"]
      process_file_record [of sys lib directory_path output_file algorithm root_dir file_name st]
    by (auto simp: w List.map_filter_simps split: option.splits)
qed

lemma set_alist_update: "set (AList.update k v al) \<subseteq> insert (k, v) (set al)"
  by (induction al) auto

lemma store_fold_subset:
  "set (fold (\<lambda>w es. store es (f w)) ws es0)
     \<subseteq> set es0 \<union> {r. \<exists>w \<in> set ws. f w = Some r}"
proof (induction ws arbitrary: es0)
  case Nil
  show ?case by simp
next
  case (Cons w ws)
  have "set (store es0 (f w)) \<subseteq> set es0 \<union> {r. f w = Some r}"
    using set_alist_update by (fastforce simp: store_def split: option.splits)
  with Cons.IH [of "store es0 (f w)"] show ?case
    by auto
qed

lemma scan_tree_result:
  "entries (scan_tree sys lib directory_path output_file algorithm
              \<lparr>entries = [], file_count = 0, printed = pr\<rparr>)
     = listed sys lib directory_path output_file algorithm
   \<and> file_count (scan_tree sys lib directory_path output_file algorithm
              \<lparr>entries = [], file_count = 0, printed = pr\<rparr>)
     = processed_count sys lib directory_path output_file algorithm"
  using fold_process_file [of sys lib directory_path output_file algorithm
      "walked_files sys directory_path" "\<lparr>entries = [], file_count = 0, printed = pr\<rparr>"]
  by (simp add: scan_tree_as_fold listed_def processed_count_def)

lemma create_checksum_file_written:
  assumes "os_path_exists sys directory_path"
    and "json_dump sys output_file
           (manifest sys directory_path algorithm
              (listed sys lib directory_path output_file algorithm)) = None"
  shows "b_returned (create_checksum_file sys lib directory_path output_file algorithm) = True \<and>
         b_written (create_checksum_file sys lib directory_path output_file algorithm)
           = Some (output_file,
                   manifest sys directory_path algorithm
                     (listed sys lib directory_path output_file algorithm)) \<and>
         (\<exists>pr. b_printed (create_checksum_file sys lib directory_path output_file algorithm)
                 = pr @ [MsgRule,
                         MsgDone (processed_count sys lib directory_path output_file algorithm),
                         MsgSaved output_file])"
  using assms scan_tree_result [of sys lib directory_path output_file algorithm
      "[MsgScanning directory_path, MsgRule]"]
  by (simp add: create_checksum_file_def Let_def)

lemma create_checksum_file_written_iff:
  assumes "b_written (create_checksum_file sys lib directory_path output_file algorithm)
             = Some (p, doc)"
  shows "os_path_exists sys directory_path \<and> p = output_file \<and>
         doc = manifest sys directory_path algorithm
                 (listed sys lib directory_path output_file algorithm) \<and>
         b_returned (create_checksum_file sys lib directory_path output_file algorithm)"
  using assms scan_tree_result [of sys lib directory_path output_file algorithm
      "[MsgScanning directory_path, MsgRule]"]
  by (auto simp: create_checksum_file_def Let_def split: if_splits option.splits)

lemma listed_provenance:
  assumes "(rel_path, r) \<in> set (listed sys lib directory_path output_file algorithm)"
  shows "\<exists>w \<in> set (walked_files sys directory_path).
           file_record sys lib directory_path output_file algorithm w = Some (rel_path, r)"
  using assms store_fold_subset
    [of "file_record sys lib directory_path output_file algorithm"
        "walked_files sys directory_path" "[]"]
  by (auto simp: listed_def)

lemma file_record_Some:
  assumes "file_record sys lib directory_path output_file algorithm (root_dir, file_name)
             = Some (rel_path, r)"
  shows "file_name \<noteq> output_file \<and>
         os_path_relpath sys (os_path_join sys root_dir file_name) directory_path = Inr rel_path \<and>
         (\<exists>file_hash file_size mtime.
            snd (calculate_hash sys lib (os_path_join sys root_dir file_name) algorithm)
              = Inr file_hash \<and>
            r = PDict [(''hash'', PStr file_hash), (''size'', PInt file_size),
                       (''modified'', PFloat mtime)])"
  using assms
  by (auto simp: file_record_def Let_def split: if_splits sum.splits)

lemma nothing_listed:
  assumes "\<forall>w \<in> set ws. f w = None"
  shows "fold (\<lambda>w es. store es (f w)) ws es0 = es0" and "List.map_filter f ws = []"
  using assms by (induction ws) (simp_all add: store_def List.map_filter_simps)

lemma demo_build:
  "create_checksum_file (posix_os demo_fs) toy_hashlib ''.'' ''checksums.json'' (PStr ''sha256'')
     = \<lparr>b_printed =
          [MsgScanning ''.'', MsgRule, MsgProcessed ''a.txt'',
           MsgReadError ''./locked'' PermissionError, MsgProcessError ''./locked'' PermissionError,
           MsgProcessed ''sub/b.txt'', MsgRule, MsgDone 2, MsgSaved ''checksums.json''],
        b_returned = True,
        b_written = Some (''checksums.json'', demo_manifest)\<rparr>"
  by (simp add: program_eval posix_eval toy_eval demo_fs_def demo_manifest_def Let_def)

lemma demo_walked:
  "walked_files (posix_os demo_fs) ''.'' = [(''.'', ''a.txt''), (''.'', ''locked''), (''./sub'', ''b.txt'')]"
  by (simp add: record_eval posix_eval demo_fs_def)

lemma demo_listed:
  "listed (posix_os demo_fs) toy_hashlib ''.'' ''checksums.json'' (PStr ''sha256'')
     = [(''a.txt'',
           PDict [(''hash'', PStr ''18d2''), (''size'', PInt 5), (''modified'', PFloat 5)]),
        (''sub/b.txt'',
           PDict [(''hash'', PStr ''1b92''), (''size'', PInt 5), (''modified'', PFloat 7)])]"
  unfolding listed_def demo_walked
  by (simp add: record_eval program_eval posix_eval toy_eval demo_fs_def)

lemma demo_count:
  "processed_count (posix_os demo_fs) toy_hashlib ''.'' ''checksums.json'' (PStr ''sha256'') = 2"
  unfolding processed_count_def demo_walked
  by (simp add: List.map_filter_simps record_eval program_eval posix_eval toy_eval demo_fs_def)

text \<open>
  C6, as the claim states it, fails: \<open>create_checksum_file\<close> returns a boolean. On the small
  tree it returns \<^verbatim>\<open>True\<close>; the manifest it assembled is in the file it wrote, and the
  count of processed files is in the line it printed.
\<close>

theorem build_returns_a_boolean:
  "create_checksum_file (posix_os demo_fs) toy_hashlib ''.'' ''checksums.json'' (PStr ''sha256'')
     = \<lparr>b_printed =
          [MsgScanning ''.'', MsgRule, MsgProcessed ''a.txt'',
           MsgReadError ''./locked'' PermissionError, MsgProcessError ''./locked'' PermissionError,
           MsgProcessed ''sub/b.txt'', MsgRule, MsgDone 2, MsgSaved ''checksums.json''],
        b_returned = True,
        b_written = Some (''checksums.json'', demo_manifest)\<rparr>"
  by (simp add: program_eval posix_eval toy_eval demo_fs_def demo_manifest_def Let_def)

text \<open>
  C6, amended. For an existing directory whose manifest can be written to \<open>output_file\<close>,
  \<open>create_checksum_file\<close> returns \<^verbatim>\<open>True\<close>, the document it has written is the
  assembled manifest (the metadata and the entries of all successfully processed files), and
  the count it prints last but one is the number of successfully processed files.
\<close>

theorem manifest_is_written_and_count_printed:
  assumes "os_path_exists sys directory_path"
    and "json_dump sys output_file
           (manifest sys directory_path algorithm
              (listed sys lib directory_path output_file algorithm)) = None"
  shows "b_returned (create_checksum_file sys lib directory_path output_file algorithm) = True \<and>
         b_written (create_checksum_file sys lib directory_path output_file algorithm)
           = Some (output_file,
                   manifest sys directory_path algorithm
                     (listed sys lib directory_path output_file algorithm)) \<and>
         (\<exists>pr. b_printed (create_checksum_file sys lib directory_path output_file algorithm)
                 = pr @ [MsgRule,
                         MsgDone (processed_count sys lib directory_path output_file algorithm),
                         MsgSaved output_file])"
  using create_checksum_file_written [OF assms] .

theorem manifest_is_written_witness:
  "os_path_exists (posix_os demo_fs) ''.''
   \<and> json_dump (posix_os demo_fs) ''checksums.json'' demo_manifest = None
   \<and> manifest (posix_os demo_fs) ''.'' (PStr ''sha256'')
        (listed (posix_os demo_fs) toy_hashlib ''.'' ''checksums.json'' (PStr ''sha256''))
       = demo_manifest
   \<and> processed_count (posix_os demo_fs) toy_hashlib ''.'' ''checksums.json'' (PStr ''sha256'') = 2
   \<and> b_returned (create_checksum_file (posix_os demo_fs) toy_hashlib ''.'' ''checksums.json''
        (PStr ''sha256'')) = True
   \<and> b_written (create_checksum_file (posix_os demo_fs) toy_hashlib ''.'' ''checksums.json''
        (PStr ''sha256'')) = Some (''checksums.json'', demo_manifest)
   \<and> (\<exists>pr. b_printed (create_checksum_file (posix_os demo_fs) toy_hashlib ''.'' ''checksums.json''
              (PStr ''sha256''))
           = pr @ [MsgRule, MsgDone 2, MsgSaved ''checksums.json''])"
proof -
  let ?sys = "posix_os demo_fs"
  have e: "os_path_exists ?sys ''.''"
    by (simp add: posix_eval demo_fs_def)
  have clock: "now_isoformat ?sys = ''2024-01-01T00:00:00''"
    by (simp add: posix_os_def demo_fs_def)
  have m: "manifest ?sys ''.'' (PStr ''sha256'')
        (listed ?sys toy_hashlib ''.'' ''checksums.json'' (PStr ''sha256'')) = demo_manifest"
    by (simp add: demo_listed manifest_def demo_manifest_def clock)
  have d: "json_dump ?sys ''checksums.json'' demo_manifest = None"
    by (simp add: posix_eval demo_fs_def)
  from manifest_is_written_and_count_printed
         [of ?sys "''.''" "''checksums.json''" "PStr ''sha256''" toy_hashlib] e d m demo_count
  show ?thesis
    by simp
qed

text \<open>
  C10. In an existing directory where no walked file is successfully processed (there is
  none, or each is skipped or fails), and whose manifest can be written, the function writes
  a manifest with the full metadata and an empty \<^verbatim>\<open>files\<close> mapping, prints a count of
  zero and returns \<^verbatim>\<open>True\<close>.
\<close>

theorem nothing_hashable_still_succeeds:
  assumes "os_path_exists sys directory_path"
    and "\<forall>w \<in> set (walked_files sys directory_path).
           file_record sys lib directory_path output_file algorithm w = None"
    and "json_dump sys output_file (manifest sys directory_path algorithm []) = None"
  shows "b_returned (create_checksum_file sys lib directory_path output_file algorithm) = True \<and>
         b_written (create_checksum_file sys lib directory_path output_file algorithm)
           = Some (output_file,
                   PDict [(''metadata'',
                             PDict [(''created_at'', PStr (now_isoformat sys)),
                                    (''algorithm'', algorithm),
                                    (''directory'', PStr directory_path)]),
                          (''files'', PDict [])]) \<and>
         (\<exists>pr. b_printed (create_checksum_file sys lib directory_path output_file algorithm)
                 = pr @ [MsgRule, MsgDone 0, MsgSaved output_file])"
proof -
  have l: "listed sys lib directory_path output_file algorithm = []"
    and c: "processed_count sys lib directory_path output_file algorithm = 0"
    using nothing_listed [OF assms(2)] by (simp_all add: listed_def processed_count_def)
  from create_checksum_file_written [of sys directory_path output_file algorithm lib] assms(1,3)
  show ?thesis
    by (simp add: l c manifest_def)
qed

theorem nothing_hashable_witness:
  "os_path_exists (posix_os demo_fs) ''sub''
   \<and> walked_files (posix_os demo_fs) ''sub'' = [(''sub'', ''b.txt'')]
   \<and> file_record (posix_os demo_fs) toy_hashlib ''sub'' ''checksums.json'' (PStr ''sha512'')
        (''sub'', ''b.txt'') = None
   \<and> create_checksum_file (posix_os demo_fs) toy_hashlib ''sub'' ''checksums.json'' (PStr ''sha512'')
       = \<lparr>b_printed =
            [MsgScanning ''sub'', MsgRule, MsgProcessError ''sub/b.txt'' ValueError,
             MsgRule, MsgDone 0, MsgSaved ''checksums.json''],
          b_returned = True,
          b_written =
            Some (''checksums.json'',
                  PDict [(''metadata'',
                            PDict [(''created_at'', PStr ''2024-01-01T00:00:00''),
                                   (''algorithm'', PStr ''sha512''),
                                   (''directory'', PStr ''sub'')]),
                         (''files'', PDict [])])\<rparr>"
proof -
  let ?sys = "posix_os demo_fs"
  have e: "os_path_exists ?sys ''sub''"
    by (simp add: posix_eval demo_fs_def)
  have w: "walked_files ?sys ''sub'' = [(''sub'', ''b.txt'')]"
    by (simp add: record_eval posix_eval demo_fs_def)
  have f: "file_record ?sys toy_hashlib ''sub'' ''checksums.json'' (PStr ''sha512'')
        (''sub'', ''b.txt'') = None"
    by (simp add: record_eval program_eval)
  have d: "json_dump ?sys ''checksums.json'' (manifest ?sys ''sub'' (PStr ''sha512'') []) = None"
    by (simp add: posix_eval demo_fs_def)
  have p: "b_printed (create_checksum_file ?sys toy_hashlib ''sub'' ''checksums.json'' (PStr ''sha512''))
             = [MsgScanning ''sub'', MsgRule, MsgProcessError ''sub/b.txt'' ValueError,
                MsgRule, MsgDone 0, MsgSaved ''checksums.json'']"
    by (simp add: program_eval posix_eval demo_fs_def Let_def)
  from nothing_hashable_still_succeeds [of ?sys "''sub''" toy_hashlib "''checksums.json''" "PStr ''sha512''"]
    e w f d
  have "b_returned (create_checksum_file ?sys toy_hashlib ''sub'' ''checksums.json'' (PStr ''sha512'')) = True \<and>
        b_written (create_checksum_file ?sys toy_hashlib ''sub'' ''checksums.json'' (PStr ''sha512''))
           = Some (''checksums.json'',
                  PDict [(''metadata'',
                            PDict [(''created_at'', PStr ''2024-01-01T00:00:00''),
                                   (''algorithm'', PStr ''sha512''),
                                   (''directory'', PStr ''sub'')]),
                         (''files'', PDict [])])"
    by (simp add: posix_os_def demo_fs_def)
  with p e w f show ?thesis
    by (cases "create_checksum_file ?sys toy_hashlib ''sub'' ''checksums.json'' (PStr ''sha512'')")
       simp
qed

section \<open>The output file and the scan\<close>

lemma split_sep_no_slash: "CHR ''/'' \<notin> set n \<Longrightarrow> split_sep n = [n]"
  by (induction n) auto

lemma split_sep_nonempty [simp]: "split_sep p \<noteq> []"
  by (induction p) (auto split: list.splits)

lemma split_sep_append_slash:
  "split_sep (a @ CHR ''/'' # b) = split_sep a @ split_sep b"
proof (induction a)
  case Nil
  show ?case by simp
next
  case (Cons c a)
  then show ?case
    by (cases "split_sep a") (auto split: list.splits)
qed

lemma norm_step_bare: "bare_name n \<Longrightarrow> norm_step acc n = acc @ [n]"
  by (simp add: norm_step_def bare_name_def)

lemma bare_not_abs: "bare_name n \<Longrightarrow> \<not> isabs n"
  by (cases n) (auto simp: bare_name_def isabs_def)

lemma abs_parts_bare: "bare_name n \<Longrightarrow> abs_parts fs n = fs_cwd fs @ [n]"
  by (simp add: abs_parts_def bare_not_abs split_sep_no_slash norm_step_bare bare_name_def)

lemma abs_parts_join_bare:
  assumes "bare_name n"
  shows "abs_parts fs (posix_join a n) = abs_parts fs a @ [n]"
proof -
  from assms have ns: "split_sep n = [n]"
    by (simp add: split_sep_no_slash bare_name_def)
  show ?thesis
  proof (cases "a = []")
    case True
    have "abs_parts fs [] = fs_cwd fs"
      by (simp add: abs_parts_def isabs_def norm_step_def)
    with True assms show ?thesis
      by (simp add: posix_join_def bare_not_abs abs_parts_bare)
  next
    case False
    then have abs: "isabs (a @ x) = isabs a" for x
      by (cases a) (simp_all add: isabs_def)
    show ?thesis
    proof (cases "last a = CHR ''/''")
      case True
      with False obtain a' where a: "a = a' @ ''/''"
        by (metis append_butlast_last_id)
      have "split_sep a = split_sep a' @ [[]]"
        using split_sep_append_slash [of a' "[]"] a by simp
      moreover have "split_sep (a @ n) = split_sep a' @ [n]"
        using split_sep_append_slash [of a' n] a ns by simp
      ultimately show ?thesis
        using assms True False abs [of n]
        by (simp add: posix_join_def bare_not_abs abs_parts_def norm_step_bare)
           (simp add: norm_step_def)
    next
      case nl: False
      have "split_sep (a @ ''/'' @ n) = split_sep a @ [n]"
        using split_sep_append_slash [of a n] ns by simp
      then show ?thesis
        using assms nl False abs [of "''/'' @ n"]
        by (simp add: posix_join_def bare_not_abs abs_parts_def norm_step_bare)
    qed
  qed
qed

lemma lookup_wf: "wf_node n \<Longrightarrow> lookup n pos = Some m \<Longrightarrow> wf_node m"
proof (induction n pos rule: lookup.induct)
  case (1 n)
  then show ?case by simp
next
  case (2 es c cs)
  then show ?case
    by (auto split: option.splits dest!: map_of_SomeD)
next
  case (3 bs t ok c cs)
  then show ?case by simp
qed

lemma walk_names_bare:
  "wf_node n \<Longrightarrow> (r, ds, fs) \<in> set (walk_node top_dir n) \<Longrightarrow> f \<in> set fs \<Longrightarrow> bare_name f"
  "(\<forall>e \<in> set es. bare_name (fst e) \<and> wf_node (snd e)) \<Longrightarrow>
     (r, ds, fs) \<in> set (walk_children top_dir es) \<Longrightarrow> f \<in> set fs \<Longrightarrow> bare_name f"
proof (induction top_dir n and top_dir es arbitrary: r ds fs and r ds fs
        rule: walk_node_walk_children.induct)
  case (1 top_dir es)
  then show ?case by auto
next
  case (2 top_dir bs t ok)
  then show ?case by simp
next
  case (3 top_dir)
  then show ?case by simp
next
  case (4 top_dir e es)
  then show ?case by (auto split: if_splits)
qed

lemma posix_walked_bare:
  assumes "wf_node (fs_root fs)"
    and "(root_dir, file_name) \<in> set (walked_files (posix_os fs) directory_path)"
  shows "bare_name file_name"
proof -
  from assms(2) obtain ds fs' where
    tr: "(root_dir, ds, fs') \<in> set (posix_walk fs directory_path)" and f: "file_name \<in> set fs'"
    by (auto simp: walked_files_def posix_os_def)
  then obtain n where loc: "locate fs directory_path = Some n"
    and w: "(root_dir, ds, fs') \<in> set (walk_node directory_path n)"
    by (cases "locate fs directory_path") (auto simp: posix_walk_def)
  from loc obtain pos where "lookup (fs_root fs) pos = Some n"
    by (auto simp: locate_def split: if_splits option.splits)
  with assms(1) have "wf_node n" by (rule lookup_wf)
  from walk_names_bare(1) [OF this w f] show ?thesis .
qed

text \<open>
  C7. The manifest must never have an entry for its own output file, also on a rebuild. The
  code does not keep this for an \<open>output_file\<close> with a directory part: line 91, meant to
  skip the file of checksums itself (the comment of line 90), compares a file's name with
  the whole of \<open>output_file\<close>, which no name equals. With the directory \<^verbatim>\<open>.\<close> and the
  output file \<^verbatim>\<open>out/checksums.json\<close>, the manifest an earlier build left there is
  hashed and listed under the key \<^verbatim>\<open>out/checksums.json\<close>, and the file that entry
  is made from is at the place the output file is written to.
\<close>

theorem path_valued_output_file_is_listed:
  "b_written (create_checksum_file (posix_os rebuild_fs) toy_hashlib ''.'' ''out/checksums.json''
       (PStr ''sha256''))
     = Some (''out/checksums.json'',
             PDict [(''metadata'',
                       PDict [(''created_at'', PStr ''2024-01-02T00:00:00''),
                              (''algorithm'', PStr ''sha256''),
                              (''directory'', PStr ''.'')]),
                    (''files'',
                       PDict [(''a.txt'',
                                 PDict [(''hash'', PStr ''18d2''), (''size'', PInt 5),
                                        (''modified'', PFloat 5)]),
                              (''out/checksums.json'',
                                 PDict [(''hash'', PStr ''0f62''), (''size'', PInt 2),
                                        (''modified'', PFloat 9)])])])
   \<and> walked_files (posix_os rebuild_fs) ''.'' = [(''.'', ''a.txt''), (''./out'', ''checksums.json'')]
   \<and> abs_parts rebuild_fs (posix_join ''./out'' ''checksums.json'')
       = abs_parts rebuild_fs ''out/checksums.json''"
  by (simp add: record_eval program_eval posix_eval toy_eval rebuild_fs_def Let_def)

text \<open>
  What the comparison of line 91 does achieve. Whatever \<open>output_file\<close> is, a file whose
  name equals it is skipped under every \<^verbatim>\<open>root\<close> (only the line of line 92 is
  printed), and every entry of the manifest is made from a walked file of another name. When
  \<open>output_file\<close> is a bare file name, no entry is made from the file at the place
  \<open>output_file\<close> names, whether or not it exists there from an earlier build.
\<close>

theorem output_file_is_skipped:
  "process_file sys lib directory_path output_file algorithm root_dir output_file st
     = st\<lparr>printed := printed st @ [MsgSkip output_file]\<rparr>
   \<and> (\<forall>(rel_path, r) \<in> set (listed sys lib directory_path output_file algorithm).
        \<exists>(root_dir, file_name) \<in> set (walked_files sys directory_path).
          file_record sys lib directory_path output_file algorithm (root_dir, file_name)
            = Some (rel_path, r) \<and>
          file_name \<noteq> output_file)
   \<and> (wf_node (fs_root fs) \<and> bare_name output_file \<and>
       b_written (create_checksum_file (posix_os fs) lib directory_path output_file algorithm)
         = Some (p, doc) \<longrightarrow>
       (\<exists>files. subscript doc ''files'' = Inr (PDict files) \<and>
          (\<forall>(rel_path, r) \<in> set files.
             \<exists>(root_dir, file_name) \<in> set (walked_files (posix_os fs) directory_path).
               file_record (posix_os fs) lib directory_path output_file algorithm
                 (root_dir, file_name) = Some (rel_path, r) \<and>
               file_name \<noteq> output_file \<and>
               abs_parts fs (posix_join root_dir file_name) \<noteq> abs_parts fs output_file)))"
proof (intro conjI impI)
  show "process_file sys lib directory_path output_file algorithm root_dir output_file st
     = st\<lparr>printed := printed st @ [MsgSkip output_file]\<rparr>"
    by (simp add: process_file_def)
next
  show "\<forall>(rel_path, r) \<in> set (listed sys lib directory_path output_file algorithm).
        \<exists>(root_dir, file_name) \<in> set (walked_files sys directory_path).
          file_record sys lib directory_path output_file algorithm (root_dir, file_name)
            = Some (rel_path, r) \<and>
          file_name \<noteq> output_file"
  proof (clarify)
    fix rel_path r
    assume "(rel_path, r) \<in> set (listed sys lib directory_path output_file algorithm)"
    from listed_provenance [OF this] obtain root_dir file_name where
      w: "(root_dir, file_name) \<in> set (walked_files sys directory_path)" and
      fr: "file_record sys lib directory_path output_file algorithm (root_dir, file_name)
             = Some (rel_path, r)"
      by auto
    from file_record_Some [OF fr] have "file_name \<noteq> output_file" by simp
    with w fr show "\<exists>(root_dir, file_name) \<in> set (walked_files sys directory_path).
          file_record sys lib directory_path output_file algorithm (root_dir, file_name)
            = Some (rel_path, r) \<and>
          file_name \<noteq> output_file"
      by blast
  qed
next
  assume h: "wf_node (fs_root fs) \<and> bare_name output_file \<and>
       b_written (create_checksum_file (posix_os fs) lib directory_path output_file algorithm)
         = Some (p, doc)"
  let ?sys = "posix_os fs"
  let ?files = "listed ?sys lib directory_path output_file algorithm"
  from h create_checksum_file_written_iff [of ?sys lib directory_path output_file algorithm p doc]
  have doc: "subscript doc ''files'' = Inr (PDict ?files)"
    by (simp add: manifest_def)
  have "\<forall>(rel_path, r) \<in> set ?files.
             \<exists>(root_dir, file_name) \<in> set (walked_files ?sys directory_path).
               file_record ?sys lib directory_path output_file algorithm
                 (root_dir, file_name) = Some (rel_path, r) \<and>
               file_name \<noteq> output_file \<and>
               abs_parts fs (posix_join root_dir file_name) \<noteq> abs_parts fs output_file"
  proof (clarify)
    fix rel_path r
    assume "(rel_path, r) \<in> set ?files"
    from listed_provenance [OF this] obtain root_dir file_name where
      w: "(root_dir, file_name) \<in> set (walked_files ?sys directory_path)" and
      fr: "file_record ?sys lib directory_path output_file algorithm (root_dir, file_name)
             = Some (rel_path, r)"
      by auto
    from file_record_Some [OF fr] have ne: "file_name \<noteq> output_file" by simp
    from h posix_walked_bare [OF _ w] have "bare_name file_name"
      by simp
    then have "abs_parts fs (posix_join root_dir file_name) = abs_parts fs root_dir @ [file_name]"
      by (rule abs_parts_join_bare)
    moreover from h have "abs_parts fs output_file = fs_cwd fs @ [output_file]"
      by (simp add: abs_parts_bare)
    ultimately have "abs_parts fs (posix_join root_dir file_name) \<noteq> abs_parts fs output_file"
      using ne by simp
    with w fr ne
    show "\<exists>(root_dir, file_name) \<in> set (walked_files ?sys directory_path).
               file_record ?sys lib directory_path output_file algorithm
                 (root_dir, file_name) = Some (rel_path, r) \<and>
               file_name \<noteq> output_file \<and>
               abs_parts fs (posix_join root_dir file_name) \<noteq> abs_parts fs output_file"
      by blast
  qed
  with doc show "\<exists>files. subscript doc ''files'' = Inr (PDict files) \<and>
          (\<forall>(rel_path, r) \<in> set files.
             \<exists>(root_dir, file_name) \<in> set (walked_files (posix_os fs) directory_path).
               file_record (posix_os fs) lib directory_path output_file algorithm
                 (root_dir, file_name) = Some (rel_path, r) \<and>
               file_name \<noteq> output_file \<and>
               abs_parts fs (posix_join root_dir file_name) \<noteq> abs_parts fs output_file)"
    by blast
qed

theorem output_file_is_skipped_witness:
  "wf_node (fs_root (with_manifest demo_manifest))
   \<and> bare_name ''checksums.json''
   \<and> walked_files (posix_os (with_manifest demo_manifest)) ''.''
       = [(''.'', ''a.txt''), (''.'', ''locked''), (''.'', ''checksums.json''), (''./sub'', ''b.txt'')]
   \<and> create_checksum_file (posix_os (with_manifest demo_manifest)) toy_hashlib ''.''
        ''checksums.json'' (PStr ''sha256'')
       = \<lparr>b_printed =
            [MsgScanning ''.'', MsgRule, MsgProcessed ''a.txt'',
             MsgReadError ''./locked'' PermissionError, MsgProcessError ''./locked'' PermissionError,
             MsgSkip ''checksums.json'', MsgProcessed ''sub/b.txt'',
             MsgRule, MsgDone 2, MsgSaved ''checksums.json''],
          b_returned = True,
          b_written = Some (''checksums.json'', demo_manifest)\<rparr>
   \<and> (\<exists>files. subscript demo_manifest ''files'' = Inr (PDict files) \<and>
          (\<forall>(rel_path, r) \<in> set files.
             \<exists>(root_dir, file_name)
                 \<in> set (walked_files (posix_os (with_manifest demo_manifest)) ''.'').
               file_record (posix_os (with_manifest demo_manifest)) toy_hashlib ''.''
                 ''checksums.json'' (PStr ''sha256'') (root_dir, file_name) = Some (rel_path, r) \<and>
               file_name \<noteq> ''checksums.json'' \<and>
               abs_parts (with_manifest demo_manifest) (posix_join root_dir file_name)
                 \<noteq> abs_parts (with_manifest demo_manifest) ''checksums.json''))"
proof -
  let ?fs = "with_manifest demo_manifest"
  have wf: "wf_node (fs_root ?fs)"
    by (simp add: with_manifest_def bare_name_def)
  have bn: "bare_name ''checksums.json''"
    by (simp add: bare_name_def)
  have wk: "walked_files (posix_os ?fs) ''.''
       = [(''.'', ''a.txt''), (''.'', ''locked''), (''.'', ''checksums.json''), (''./sub'', ''b.txt'')]"
    by (simp add: record_eval posix_eval with_manifest_def)
  have run: "create_checksum_file (posix_os ?fs) toy_hashlib ''.'' ''checksums.json'' (PStr ''sha256'')
       = \<lparr>b_printed =
            [MsgScanning ''.'', MsgRule, MsgProcessed ''a.txt'',
             MsgReadError ''./locked'' PermissionError, MsgProcessError ''./locked'' PermissionError,
             MsgSkip ''checksums.json'', MsgProcessed ''sub/b.txt'',
             MsgRule, MsgDone 2, MsgSaved ''checksums.json''],
          b_returned = True,
          b_written = Some (''checksums.json'', demo_manifest)\<rparr>"
    by (simp add: program_eval posix_eval toy_eval with_manifest_def Let_def)
       (simp add: demo_manifest_def)
  from output_file_is_skipped [of "posix_os ?fs" toy_hashlib "''.''" "''checksums.json''"
      "PStr ''sha256''" "''.''" "\<lparr>entries = [], file_count = 0, printed = []\<rparr>" ?fs
      "''checksums.json''" demo_manifest] wf bn run
  have "\<exists>files. subscript demo_manifest ''files'' = Inr (PDict files) \<and>
          (\<forall>(rel_path, r) \<in> set files.
             \<exists>(root_dir, file_name) \<in> set (walked_files (posix_os ?fs) ''.'').
               file_record (posix_os ?fs) toy_hashlib ''.''
                 ''checksums.json'' (PStr ''sha256'') (root_dir, file_name) = Some (rel_path, r) \<and>
               file_name \<noteq> ''checksums.json'' \<and>
               abs_parts ?fs (posix_join root_dir file_name) \<noteq> abs_parts ?fs ''checksums.json'')"
    by simp
  with wf bn wk run show ?thesis
    by blast
qed

section \<open>Building, then verifying\<close>

lemma calculate_hash_same_file:
  assumes "open_rb sys' p' = open_rb sys p"
  shows "snd (calculate_hash sys' lib p' algorithm) = snd (calculate_hash sys lib p algorithm)"
proof -
  have "hash_stream sys' h p' = hash_stream sys h p" for h :: "'a hasher"
    using assms by (simp add: hash_stream_def)
  then have "snd (hash_with sys' h p') = snd (hash_with sys h p)" for h :: "'a hasher"
    by (simp add: hash_with_def split: sum.splits)
  then show ?thesis
    by (simp add: calculate_hash_def)
qed

lemma verify_entries_all_match:
  assumes "\<forall>(rel_path, r) \<in> set es.
             os_path_exists sys (os_path_join sys d rel_path) \<and>
             (\<exists>h. snd (calculate_hash sys lib (os_path_join sys d rel_path) algorithm) = Inr h \<and>
                  subscript r ''hash'' = Inr (PStr h))"
  shows "\<exists>out' res'. verify_entries sys lib (PStr d) algorithm es (res, out) = (out', Inr res') \<and>
           passed res' = passed res + length es \<and> failed res' = failed res \<and>
           missing res' = missing res \<and> total res' = total res"
  using assms
proof (induction es arbitrary: res out)
  case Nil
  show ?case by simp
next
  case (Cons entry es)
  obtain rel_path r where entry: "entry = (rel_path, r)" by (cases entry)
  let ?p = "os_path_join sys d rel_path"
  from Cons.prems entry obtain h where
    ex: "os_path_exists sys ?p" and
    h: "snd (calculate_hash sys lib ?p algorithm) = Inr h" and
    r: "subscript r ''hash'' = Inr (PStr h)"
    by auto
  obtain pr where c: "calculate_hash sys lib ?p algorithm = (pr, Inr h)"
    using h by (cases "calculate_hash sys lib ?p algorithm") simp
  have step: "check_file sys lib algorithm rel_path r ?p (res, out)
                = (res\<lparr>passed := passed res + 1\<rparr>, out @ pr @ [MsgIntact rel_path])"
    using ex c r by (simp add: check_file_def)
  from Cons.prems have "\<forall>(rel_path, r) \<in> set es.
             os_path_exists sys (os_path_join sys d rel_path) \<and>
             (\<exists>h. snd (calculate_hash sys lib (os_path_join sys d rel_path) algorithm) = Inr h \<and>
                  subscript r ''hash'' = Inr (PStr h))"
    by simp
  from Cons.IH [OF this, of "res\<lparr>passed := passed res + 1\<rparr>" "out @ pr @ [MsgIntact rel_path]"]
  show ?case
    by (auto simp: entry path_join_def step)
qed

lemma round_trip_when_unmodified:
  assumes build: "b_written (create_checksum_file sys lib directory_path output_file algorithm)
                    = Some (output_file, doc)"
    and persisted: "json_load sys' checksum_file = Inr doc"
    and target: "target = (case directory_arg of None \<Rightarrow> directory_path | Some d \<Rightarrow> d)"
    and unmodified:
      "\<forall>w \<in> set (walked_files sys directory_path). \<forall>rel_path r.
          file_record sys lib directory_path output_file algorithm w = Some (rel_path, r) \<longrightarrow>
          os_path_exists sys' (os_path_join sys' target rel_path) \<and>
          open_rb sys' (os_path_join sys' target rel_path)
            = open_rb sys (os_path_join sys (fst w) (snd w))"
  shows "\<exists>out res.
           verify_run sys' lib checksum_file directory_arg = (out, Inr res) \<and>
           failed res = 0 \<and> missing res = 0 \<and> passed res = total res \<and>
           total res = length (listed sys lib directory_path output_file algorithm) \<and>
           snd (verify_integrity sys' lib checksum_file directory_arg) = True"
proof -
  let ?es = "listed sys lib directory_path output_file algorithm"
  from create_checksum_file_written_iff [OF build]
  have doc: "doc = manifest sys directory_path algorithm ?es"
    by simp
  have good: "\<forall>(rel_path, r) \<in> set ?es.
             os_path_exists sys' (os_path_join sys' target rel_path) \<and>
             (\<exists>h. snd (calculate_hash sys' lib (os_path_join sys' target rel_path) algorithm) = Inr h \<and>
                  subscript r ''hash'' = Inr (PStr h))"
  proof (clarify)
    fix rel_path r
    assume "(rel_path, r) \<in> set ?es"
    from listed_provenance [OF this] obtain root_dir file_name where
      w: "(root_dir, file_name) \<in> set (walked_files sys directory_path)" and
      fr: "file_record sys lib directory_path output_file algorithm (root_dir, file_name)
             = Some (rel_path, r)"
      by auto
    from unmodified w fr have
      ex: "os_path_exists sys' (os_path_join sys' target rel_path)" and
      same: "open_rb sys' (os_path_join sys' target rel_path)
               = open_rb sys (os_path_join sys root_dir file_name)"
      by fastforce+
    from file_record_Some [OF fr] obtain file_hash file_size mtime where
      h: "snd (calculate_hash sys lib (os_path_join sys root_dir file_name) algorithm) = Inr file_hash"
      and r: "r = PDict [(''hash'', PStr file_hash), (''size'', PInt file_size),
                       (''modified'', PFloat mtime)]"
      by blast
    from calculate_hash_same_file [OF same, of lib algorithm] h
    have "snd (calculate_hash sys' lib (os_path_join sys' target rel_path) algorithm) = Inr file_hash"
      by simp
    moreover from r have "subscript r ''hash'' = Inr (PStr file_hash)"
      by simp
    ultimately show "os_path_exists sys' (os_path_join sys' target rel_path) \<and>
             (\<exists>h. snd (calculate_hash sys' lib (os_path_join sys' target rel_path) algorithm) = Inr h \<and>
                  subscript r ''hash'' = Inr (PStr h))"
      using ex by blast
  qed
  let ?st = "(\<lparr>passed = 0, failed = 0, missing = 0, total = length ?es\<rparr>,
              [MsgVerifying (PStr target), MsgAlgorithm algorithm, MsgRule])"
  from verify_entries_all_match [OF good, of "fst ?st" "snd ?st"]
  obtain out res where
    loop: "verify_entries sys' lib (PStr target) algorithm ?es ?st = (out, Inr res)" and
    counts: "passed res = length ?es" "failed res = 0" "missing res = 0" "total res = length ?es"
    by auto
  have dir: "(case directory_arg of None \<Rightarrow> PStr directory_path | Some d \<Rightarrow> PStr d) = PStr target"
    using target by (cases directory_arg) simp_all
  have "verify_loaded sys' lib doc directory_arg = (out, Inr res)"
    using loop by (simp add: verify_loaded_def doc manifest_def dir)
  with persisted have run: "verify_run sys' lib checksum_file directory_arg = (out, Inr res)"
    by (simp add: verify_run_def)
  with counts have "snd (verify_integrity sys' lib checksum_file directory_arg) = True"
    by (simp add: verify_integrity_def)
  with run counts show ?thesis
    by simp
qed

subsection \<open>Paths in the POSIX file system\<close>

lemma lookup_append:
  "lookup r (p @ q) = (case lookup r p of None \<Rightarrow> None | Some n \<Rightarrow> lookup n q)"
proof (induction r p rule: lookup.induct)
  case (1 n)
  show ?case by simp
next
  case (2 es c cs)
  then show ?case by (simp split: option.splits)
next
  case (3 bs t ok c cs)
  show ?case by simp
qed

lemma lookup_child_needs_dir:
  "lookup n (c # cs) = Some m \<Longrightarrow> \<exists>es k. n = Dir es \<and> map_of es c = Some k \<and> lookup k cs = Some m"
  by (cases n) (auto split: option.splits)

lemma resolve_from_place:
  "resolve_from r s comps = Some pos \<Longrightarrow> pos = foldl norm_step s comps \<and> lookup r pos \<noteq> None"
proof (induction comps arbitrary: s)
  case Nil
  then show ?case by (simp split: option.splits)
next
  case (Cons c comps)
  from Cons.prems obtain es where d: "lookup r s = Some (Dir es)"
    by (auto split: option.splits node.splits)
  show ?case
  proof (cases "c = [] \<or> c = ''.''")
    case True
    with Cons.prems d have "resolve_from r s comps = Some pos" by auto
    moreover from True have "norm_step s c = s" by (auto simp: norm_step_def)
    ultimately show ?thesis using Cons.IH [of s] by auto
  next
    case False
    show ?thesis
    proof (cases "c = ''..''")
      case True
      with Cons.prems d have "resolve_from r (butlast s) comps = Some pos" by simp
      moreover from True have "norm_step s c = butlast s" by (simp add: norm_step_def)
      ultimately show ?thesis using Cons.IH [of "butlast s"] by auto
    next
      case nd: False
      with False Cons.prems d have "resolve_from r (s @ [c]) comps = Some pos" by simp
      moreover from False nd have "norm_step s c = s @ [c]" by (simp add: norm_step_def)
      ultimately show ?thesis using Cons.IH [of "s @ [c]"] by auto
    qed
  qed
qed

lemma resolve_from_append:
  "resolve_from r s (xs @ ys)
     = (case resolve_from r s xs of None \<Rightarrow> None | Some pos \<Rightarrow> resolve_from r pos ys)"
proof (induction xs arbitrary: s)
  case Nil
  show ?case
    by (cases ys) (auto split: option.splits node.splits)
next
  case (Cons c xs)
  show ?case
    by (simp add: Cons.IH split: option.splits node.splits)
qed

lemma resolve_descend:
  "\<forall>c \<in> set cs. bare_name c \<Longrightarrow> lookup r (P @ cs) = Some m \<Longrightarrow>
     resolve_from r P cs = Some (P @ cs)"
proof (induction cs arbitrary: P)
  case Nil
  then show ?case by simp
next
  case (Cons c cs)
  from Cons.prems(2) obtain n where n: "lookup r P = Some n" and below: "lookup n (c # cs) = Some m"
    by (auto simp: lookup_append split: option.splits)
  from lookup_child_needs_dir [OF below] obtain es where d: "n = Dir es" by blast
  from Cons.prems(1) have c: "c \<noteq> []" "c \<noteq> ''.''" "c \<noteq> ''..''"
    by (auto simp: bare_name_def)
  have "resolve_from r (P @ [c]) cs = Some ((P @ [c]) @ cs)"
    using Cons.IH [of "P @ [c]"] Cons.prems by simp
  with n d c show ?case by simp
qed

lemma join_parts_not_abs:
  "cs \<noteq> [] \<Longrightarrow> \<forall>c \<in> set cs. bare_name c \<Longrightarrow> \<not> isabs (join_parts cs)"
proof -
  assume "cs \<noteq> []" and b: "\<forall>c \<in> set cs. bare_name c"
  then obtain c cs' where cs: "cs = c # cs'" by (cases cs) auto
  with b obtain x xs where c: "c = x # xs" and x: "x \<noteq> CHR ''/''"
    by (cases c) (auto simp: bare_name_def)
  have "\<exists>rest. join_parts cs = x # rest"
    by (cases cs') (simp_all add: cs c)
  with x show ?thesis by (auto simp: isabs_def)
qed

lemma split_join_parts:
  "cs \<noteq> [] \<Longrightarrow> \<forall>c \<in> set cs. bare_name c \<Longrightarrow> split_sep (join_parts cs) = cs"
proof (induction cs rule: join_parts.induct)
  case 1
  then show ?case by simp
next
  case (2 c)
  then show ?case by (simp add: split_sep_no_slash bare_name_def)
next
  case (3 c d cs)
  then have "split_sep (c @ CHR ''/'' # join_parts (d # cs)) = split_sep c @ split_sep (join_parts (d # cs))"
    by (simp add: split_sep_append_slash)
  with 3 show ?case by (simp add: split_sep_no_slash bare_name_def)
qed

lemma isabs_join: "a \<noteq> [] \<Longrightarrow> \<not> isabs b \<Longrightarrow> isabs (posix_join a b) = isabs a"
  by (cases a) (simp_all add: posix_join_def isabs_def)

lemma posix_join_nonempty: "a \<noteq> [] \<Longrightarrow> posix_join a b \<noteq> []"
  by (cases b) (simp_all add: posix_join_def isabs_def)

lemma resolve_join:
  assumes "resolve_from r s (split_sep a) = Some P" and "a \<noteq> []" and "cs \<noteq> []"
    and "\<forall>c \<in> set cs. bare_name c"
  shows "resolve_from r s (split_sep (posix_join a (join_parts cs))) = resolve_from r P cs"
proof -
  have na: "\<not> isabs (join_parts cs)"
    using assms(3,4) by (rule join_parts_not_abs)
  have sp: "split_sep (join_parts cs) = cs"
    using assms(3,4) by (rule split_join_parts)
  show ?thesis
  proof (cases "last a = CHR ''/''")
    case True
    with assms(2) obtain a' where a: "a = a' @ ''/''"
      by (metis append_butlast_last_id)
    have sa: "split_sep a = split_sep a' @ [[]]"
      using split_sep_append_slash [of a' "[]"] a by simp
    have sj: "split_sep (a @ join_parts cs) = split_sep a' @ cs"
      using split_sep_append_slash [of a' "join_parts cs"] a sp by simp
    from assms(1) sa obtain P' where
      p': "resolve_from r s (split_sep a') = Some P'" and e: "resolve_from r P' [[]] = Some P"
      by (auto simp: resolve_from_append split: option.splits)
    from e have "P' = P"
      by (auto split: option.splits node.splits)
    with p' sj True na assms(2) show ?thesis
      by (simp add: posix_join_def resolve_from_append)
  next
    case False
    have "split_sep (a @ ''/'' @ join_parts cs) = split_sep a @ cs"
      using split_sep_append_slash [of a "join_parts cs"] sp by simp
    with assms(1,2) False na show ?thesis
      by (simp add: posix_join_def resolve_from_append)
  qed
qed

lemma resolve_joined:
  assumes "resolve_from r s (split_sep a) = Some P" and "a \<noteq> []"
    and "\<forall>c \<in> set cs. bare_name c" and "lookup r (P @ cs) = Some m"
  shows "resolve_from r s (split_sep (foldl posix_join a cs)) = Some (P @ cs)
         \<and> isabs (foldl posix_join a cs) = isabs a \<and> foldl posix_join a cs \<noteq> []"
  using assms
proof (induction cs arbitrary: a P)
  case Nil
  then show ?case by simp
next
  case (Cons c cs)
  have bc: "bare_name c" using Cons.prems(3) by simp
  from Cons.prems(4) have "lookup r ((P @ [c]) @ cs) = Some m" by simp
  then obtain k where k: "lookup r (P @ [c]) = Some k"
    unfolding lookup_append [of r "P @ [c]" cs] by (auto split: option.splits)
  have "resolve_from r s (split_sep (posix_join a (join_parts [c]))) = resolve_from r P [c]"
    using resolve_join [OF Cons.prems(1,2), of "[c]"] bc by simp
  moreover have "resolve_from r P [c] = Some (P @ [c])"
    using resolve_descend [of "[c]" r P k] bc k by simp
  ultimately have step: "resolve_from r s (split_sep (posix_join a c)) = Some (P @ [c])"
    by simp
  have ne: "posix_join a c \<noteq> []"
    using Cons.prems(2) by (rule posix_join_nonempty)
  have ab: "isabs (posix_join a c) = isabs a"
    using Cons.prems(2) bc by (simp add: isabs_join bare_not_abs)
  from Cons.IH [OF step ne] Cons.prems(3,4) ab show ?case
    by simp
qed

lemma map_of_distinct_entry:
  "distinct (map fst es) \<Longrightarrow> e \<in> set es \<Longrightarrow> map_of es (fst e) = Some (snd e)"
  by (cases e) simp

lemma walk_places:
  "wf_node n \<Longrightarrow> (r, ds, fs) \<in> set (walk_node top_dir n) \<Longrightarrow>
     \<exists>sub es. (\<forall>c \<in> set sub. bare_name c) \<and> r = foldl posix_join top_dir sub \<and>
        lookup n sub = Some (Dir es) \<and> wf_node (Dir es) \<and>
        fs = map fst (filter (\<lambda>e. \<not> is_Dir (snd e)) es)"
  "(\<forall>e \<in> set es0. bare_name (fst e) \<and> wf_node (snd e)) \<Longrightarrow>
     (r, ds, fs) \<in> set (walk_children top_dir es0) \<Longrightarrow>
     \<exists>e \<in> set es0. \<exists>sub es. (\<forall>c \<in> set sub. bare_name c) \<and>
        r = foldl posix_join (posix_join top_dir (fst e)) sub \<and>
        lookup (snd e) sub = Some (Dir es) \<and> wf_node (Dir es) \<and>
        fs = map fst (filter (\<lambda>e. \<not> is_Dir (snd e)) es)"
proof (induction top_dir n and top_dir es0 arbitrary: r ds fs and r ds fs
        rule: walk_node_walk_children.induct)
  case (1 top_dir es)
  from "1.prems"(2) consider
    (here) "r = top_dir" "fs = map fst (filter (\<lambda>e. \<not> is_Dir (snd e)) es)"
    | (below) "(r, ds, fs) \<in> set (walk_children top_dir es)"
    by auto
  then show ?case
  proof cases
    case here
    have "(\<forall>c \<in> set []. bare_name c) \<and> r = foldl posix_join top_dir [] \<and>
        lookup (Dir es) [] = Some (Dir es) \<and> wf_node (Dir es) \<and>
        fs = map fst (filter (\<lambda>e. \<not> is_Dir (snd e)) es)"
      using here "1.prems"(1) by simp
    then show ?thesis by blast
  next
    case below
    from "1.prems"(1) have all: "\<forall>e \<in> set es. bare_name (fst e) \<and> wf_node (snd e)"
      and dist: "distinct (map fst es)"
      by simp_all
    from "1.IH" [OF all below] obtain e sub es' where
      e: "e \<in> set es" and sub: "\<forall>c \<in> set sub. bare_name c" and
      r: "r = foldl posix_join (posix_join top_dir (fst e)) sub" and
      l: "lookup (snd e) sub = Some (Dir es')" and w: "wf_node (Dir es')" and
      f: "fs = map fst (filter (\<lambda>e. \<not> is_Dir (snd e)) es')"
      by blast
    from map_of_distinct_entry [OF dist e] l
    have "lookup (Dir es) (fst e # sub) = Some (Dir es')" by simp
    moreover from sub all e have "\<forall>c \<in> set (fst e # sub). bare_name c" by simp
    moreover from r have "r = foldl posix_join top_dir (fst e # sub)" by simp
    ultimately show ?thesis using w f by blast
  qed
next
  case (2 top_dir bs t ok)
  then show ?case by simp
next
  case (3 top_dir)
  then show ?case by simp
next
  case (4 top_dir e es)
  from "4.prems"(2) consider
    (first) "is_Dir (snd e)" "(r, ds, fs) \<in> set (walk_node (posix_join top_dir (fst e)) (snd e))"
    | (rest) "(r, ds, fs) \<in> set (walk_children top_dir es)"
    by (auto split: if_splits)
  then show ?case
  proof cases
    case first
    from "4.prems"(1) have "wf_node (snd e)" by simp
    from "4.IH"(1) [OF first(1) this first(2)] show ?thesis by auto
  next
    case rest
    from "4.prems"(1) have "\<forall>e \<in> set es. bare_name (fst e) \<and> wf_node (snd e)" by simp
    from "4.IH"(2) [OF this rest] show ?thesis by auto
  qed
qed

lemma walked_file_place:
  assumes "wf_node n" and "(r, ds, fs) \<in> set (walk_node top_dir n)" and "name \<in> set fs"
  shows "\<exists>sub m. (\<forall>c \<in> set (sub @ [name]). bare_name c) \<and> r = foldl posix_join top_dir sub \<and>
           lookup n (sub @ [name]) = Some m \<and> \<not> is_Dir m"
proof -
  from walk_places(1) [OF assms(1,2)] obtain sub es where
    sub: "\<forall>c \<in> set sub. bare_name c" and r: "r = foldl posix_join top_dir sub" and
    l: "lookup n sub = Some (Dir es)" and w: "wf_node (Dir es)" and
    f: "fs = map fst (filter (\<lambda>e. \<not> is_Dir (snd e)) es)"
    by blast
  from assms(3) f obtain e where e: "e \<in> set es" "\<not> is_Dir (snd e)" "name = fst e"
    by auto
  from w e have "map_of es name = Some (snd e)" and "bare_name name"
    by (simp_all add: map_of_distinct_entry)
  with l sub e r show ?thesis
    by (auto simp: lookup_append)
qed

lemma common_prefix_len_append: "common_prefix_len xs (xs @ ys) = length xs"
  by (induction xs) simp_all

lemma posix_key_leads_back:
  assumes wf: "wf_node (fs_root fs)"
    and w: "(root_dir, file_name) \<in> set (walked_files (posix_os fs) directory_path)"
  shows "\<exists>P sub m.
           resolve_from (fs_root fs) (if isabs directory_path then [] else fs_cwd fs)
             (split_sep directory_path) = Some P \<and>
           directory_path \<noteq> [] \<and>
           (\<forall>c \<in> set (sub @ [file_name]). bare_name c) \<and>
           lookup (fs_root fs) (P @ sub @ [file_name]) = Some m \<and> \<not> is_Dir m \<and>
           abs_parts fs (posix_join root_dir file_name) = P @ sub @ [file_name] \<and>
           locate fs (posix_join root_dir file_name) = Some m \<and>
           posix_relpath fs (posix_join root_dir file_name) directory_path
             = Inr (join_parts (sub @ [file_name]))"
proof -
  let ?r = "fs_root fs"
  let ?s = "if isabs directory_path then [] else fs_cwd fs"
  from w obtain ds fs' where
    tr: "(root_dir, ds, fs') \<in> set (posix_walk fs directory_path)" and f: "file_name \<in> set fs'"
    by (auto simp: walked_files_def posix_os_def)
  then obtain n where loc: "locate fs directory_path = Some n"
    and wn: "(root_dir, ds, fs') \<in> set (walk_node directory_path n)"
    by (cases "locate fs directory_path") (auto simp: posix_walk_def)
  from loc have ne: "directory_path \<noteq> []"
    by (auto simp: locate_def)
  from loc ne obtain P where
    P: "resolve_from ?r ?s (split_sep directory_path) = Some P" and n: "lookup ?r P = Some n"
    by (auto simp: locate_def split: option.splits)
  from wf n have "wf_node n" by (rule lookup_wf)
  from walked_file_place [OF this wn f] obtain sub m where
    bare: "\<forall>c \<in> set (sub @ [file_name]). bare_name c" and
    r: "root_dir = foldl posix_join directory_path sub" and
    m: "lookup n (sub @ [file_name]) = Some m" and nd: "\<not> is_Dir m"
    by blast
  from n m have pm: "lookup ?r (P @ sub @ [file_name]) = Some m"
    by (simp add: lookup_append)
  have fp: "posix_join root_dir file_name = foldl posix_join directory_path (sub @ [file_name])"
    by (simp add: r)
  from resolve_joined [OF P ne bare pm] fp
  have res: "resolve_from ?r ?s (split_sep (posix_join root_dir file_name))
               = Some (P @ sub @ [file_name])"
    and ab: "isabs (posix_join root_dir file_name) = isabs directory_path"
    and fne: "posix_join root_dir file_name \<noteq> []"
    by simp_all
  from resolve_from_place [OF res] ab
  have ap: "abs_parts fs (posix_join root_dir file_name) = P @ sub @ [file_name]"
    by (simp add: abs_parts_def)
  from resolve_from_place [OF P] have ad: "abs_parts fs directory_path = P"
    by (simp add: abs_parts_def)
  from res ab fne pm have lf: "locate fs (posix_join root_dir file_name) = Some m"
    by (simp add: locate_def)
  have rel: "posix_relpath fs (posix_join root_dir file_name) directory_path
             = Inr (join_parts (sub @ [file_name]))"
    using fne by (simp add: posix_relpath_def ap ad common_prefix_len_append Let_def)
  from P ne bare pm nd ap lf rel show ?thesis
    by blast
qed

lemma posix_key_resolves:
  assumes "resolve_from r s (split_sep directory_path) = Some P" and "directory_path \<noteq> []"
    and "\<forall>c \<in> set cs. bare_name c" and "cs \<noteq> []" and "lookup r (P @ cs) = Some m"
  shows "resolve_from r s (split_sep (posix_join directory_path (join_parts cs))) = Some (P @ cs)"
  using resolve_join [OF assms(1,2,4,3)] resolve_descend [OF assms(3,5)] by simp

subsection \<open>Writing the manifest into the tree\<close>

lemma map_of_put_in:
  "map_of (put_in es c cs f) d =
     (if d = c then
        (case map_of es c of
           Some k \<Rightarrow> Some (put k cs f)
         | None \<Rightarrow> if cs = [] then Some f else None)
      else map_of es d)"
  by (induction es) auto

lemma lookup_put_other:
  "\<not> prefix p q \<Longrightarrow> \<not> prefix q p \<Longrightarrow> lookup (put n p f) q = lookup n q"
proof (induction p arbitrary: n q)
  case Nil
  then show ?case by simp
next
  case (Cons c cs)
  then obtain d ds where q: "q = d # ds" by (cases q) auto
  show ?case
  proof (cases n)
    case (File bs t ok)
    then show ?thesis by simp
  next
    case (Dir es)
    show ?thesis
    proof (cases "d = c")
      case False
      then show ?thesis by (simp add: Dir q map_of_put_in)
    next
      case True
      with Cons.prems q have inc: "\<not> prefix cs ds" "\<not> prefix ds cs" by simp_all
      then have "cs \<noteq> []" by auto
      with True Cons.IH [OF inc] show ?thesis
        by (simp add: Dir q map_of_put_in split: option.splits)
    qed
  qed
qed

lemma lookup_put_above:
  "rest \<noteq> [] \<Longrightarrow> lookup n q = Some (Dir es) \<Longrightarrow>
     \<exists>es'. lookup (put n (q @ rest) f) q = Some (Dir es')"
proof (induction q arbitrary: n)
  case Nil
  then show ?case by (cases rest) auto
next
  case (Cons d ds)
  from lookup_child_needs_dir [OF Cons.prems(2)] obtain es0 k where
    n: "n = Dir es0" and k: "map_of es0 d = Some k" and l: "lookup k ds = Some (Dir es)"
    by blast
  from Cons.IH [OF Cons.prems(1) l] n k show ?case
    by (simp add: map_of_put_in)
qed

lemma lookup_put_at:
  "lookup n q = Some (Dir es) \<Longrightarrow> lookup (put n (q @ [c]) f) (q @ [c]) = Some f"
proof (induction q arbitrary: n)
  case Nil
  then show ?case by (simp add: map_of_put_in split: option.splits)
next
  case (Cons d ds)
  from lookup_child_needs_dir [OF Cons.prems] obtain es0 k where
    n: "n = Dir es0" and k: "map_of es0 d = Some k" and l: "lookup k ds = Some (Dir es)"
    by blast
  from Cons.IH [OF l] n k show ?case
    by (simp add: map_of_put_in)
qed

lemma lookup_below_needs_dir:
  assumes "lookup n (p @ q) = Some m" and "q \<noteq> []"
  shows "\<exists>es. lookup n p = Some (Dir es)"
proof -
  from assms(1) obtain k where k: "lookup n p = Some k" and "lookup k q = Some m"
    by (auto simp: lookup_append split: option.splits)
  with assms(2) show ?thesis
    by (cases q; cases k) auto
qed

text \<open>Writing a file into a directory keeps every directory and every other file.\<close>

lemma put_keeps_directories:
  assumes parent: "lookup r C = Some (Dir es0)"
    and free: "\<forall>es. lookup r (C @ [c]) \<noteq> Some (Dir es)"
    and dir: "lookup r R = Some (Dir es)"
  shows "\<exists>es'. lookup (put r (C @ [c]) f) R = Some (Dir es')"
proof -
  let ?P = "C @ [c]"
  consider (above) "strict_prefix R ?P" | (below) "prefix ?P R" | (other) "\<not> prefix R ?P" "\<not> prefix ?P R"
    by (auto simp: strict_prefix_def)
  then show ?thesis
  proof cases
    case above
    then obtain rest where "?P = R @ rest" "rest \<noteq> []"
      by (auto simp: strict_prefix_def prefix_def)
    with lookup_put_above [OF this(2) dir, of f] show ?thesis by simp
  next
    case below
    then obtain rest where R: "R = ?P @ rest" by (auto simp: prefix_def)
    show ?thesis
    proof (cases "rest = []")
      case True
      with R dir free show ?thesis by simp
    next
      case False
      from lookup_below_needs_dir [of r ?P rest] dir R False free show ?thesis by auto
    qed
  next
    case other
    with dir show ?thesis by (simp add: lookup_put_other)
  qed
qed

lemma put_keeps_files:
  assumes parent: "lookup r C = Some (Dir es0)"
    and free: "\<forall>es. lookup r (C @ [c]) \<noteq> Some (Dir es)"
    and isfile: "lookup r Q = Some m" "\<not> is_Dir m" and other: "Q \<noteq> C @ [c]"
  shows "lookup (put r (C @ [c]) f) Q = Some m"
proof -
  let ?P = "C @ [c]"
  have "\<not> prefix Q ?P"
  proof
    assume "prefix Q ?P"
    with other have "prefix Q C" by (auto simp: prefix_def append_eq_append_conv2 Cons_eq_append_conv)
    then obtain rest where C: "C = Q @ rest" by (auto simp: prefix_def)
    show False
    proof (cases "rest = []")
      case True
      with C parent isfile show False by simp
    next
      case False
      from lookup_below_needs_dir [of r Q rest] parent C False isfile show False by auto
    qed
  qed
  moreover have "\<not> prefix ?P Q"
  proof
    assume "prefix ?P Q"
    with other obtain rest where Q: "Q = ?P @ rest" and "rest \<noteq> []"
      by (auto simp: prefix_def)
    from lookup_below_needs_dir [of r ?P rest] isfile(1) Q this(2) free show False by auto
  qed
  ultimately show ?thesis using isfile(1) by (simp add: lookup_put_other)
qed

lemma resolve_after_put:
  assumes keep: "\<And>R es. lookup r R = Some (Dir es) \<Longrightarrow> \<exists>es'. lookup r' R = Some (Dir es')"
  shows "resolve_from r s comps = Some Q \<Longrightarrow> lookup r' Q \<noteq> None \<Longrightarrow>
           resolve_from r' s comps = Some Q"
proof (induction comps arbitrary: s)
  case Nil
  then show ?case by (auto split: option.splits)
next
  case (Cons c comps)
  from Cons.prems(1) obtain es where d: "lookup r s = Some (Dir es)"
    by (auto split: option.splits node.splits)
  from keep [OF d] obtain es' where d': "lookup r' s = Some (Dir es')" by blast
  from Cons.prems(1) d d' Cons.IH Cons.prems(2) show ?case
    by (auto split: if_splits)
qed

lemma written_needs_dump:
  assumes "b_written (create_checksum_file sys lib directory_path output_file algorithm) = Some x"
  shows "json_dump sys output_file
           (manifest sys directory_path algorithm
              (listed sys lib directory_path output_file algorithm)) = None"
  using assms scan_tree_result [of sys lib directory_path output_file algorithm
      "[MsgScanning directory_path, MsgRule]"]
  by (auto simp: create_checksum_file_def Let_def split: if_splits option.splits)

lemma locate_bare:
  assumes "bare_name name"
  shows "locate fs name =
           (case lookup (fs_root fs) (fs_cwd fs) of
              Some (Dir es) \<Rightarrow> lookup (fs_root fs) (fs_cwd fs @ [name])
            | _ \<Rightarrow> None)"
proof -
  from assms have n: "name \<noteq> []" "name \<noteq> ''.''" "name \<noteq> ''..''" "\<not> isabs name"
    "split_sep name = [name]"
    by (auto simp: bare_name_def bare_not_abs split_sep_no_slash)
  then show ?thesis
    by (auto simp: locate_def split: option.splits node.splits)
qed

lemma dump_bare:
  assumes "bare_name name" and "posix_json_dump fs name doc = None"
  shows "(\<exists>es0. lookup (fs_root fs) (fs_cwd fs) = Some (Dir es0)) \<and>
         (\<forall>es. lookup (fs_root fs) (fs_cwd fs @ [name]) \<noteq> Some (Dir es))"
proof -
  from assms(1) have n: "name \<noteq> []" "\<not> isabs name" "split_sep name = [name]"
    by (auto simp: bare_name_def bare_not_abs split_sep_no_slash)
  show ?thesis
  proof (cases "lookup (fs_root fs) (fs_cwd fs)")
    case None
    with assms n show ?thesis
      by (simp add: posix_json_dump_def locate_bare split: if_splits)
  next
    case (Some k)
    show ?thesis
    proof (cases k)
      case (File bs t ok)
      with Some assms n show ?thesis
        by (simp add: posix_json_dump_def locate_bare split: if_splits)
    next
      case (Dir es0)
      with Some assms n show ?thesis
        by (auto simp: posix_json_dump_def locate_bare split: if_splits option.splits node.splits)
    qed
  qed
qed

lemma posix_tree_unmodified:
  assumes wf: "wf_node (fs_root fs)" and bare: "bare_name output_file"
    and build: "b_written (create_checksum_file (posix_os fs) lib directory_path output_file
                  algorithm) = Some (output_file, doc)"
    and w: "w \<in> set (walked_files (posix_os fs) directory_path)"
    and fr: "file_record (posix_os fs) lib directory_path output_file algorithm w
               = Some (rel_path, r)"
  shows "locate (after_write fs output_file bytes t dec) (posix_join directory_path rel_path)
           = locate fs (posix_join (fst w) (snd w)) \<and>
         locate fs (posix_join (fst w) (snd w)) \<noteq> None"
proof -
  let ?r = "fs_root fs"
  let ?C = "fs_cwd fs"
  let ?fs' = "after_write fs output_file bytes t dec"
  let ?r' = "fs_root ?fs'"
  let ?s = "if isabs directory_path then [] else fs_cwd fs"
  obtain root_dir file_name where wp: "w = (root_dir, file_name)" by (cases w)
  have r': "?r' = put ?r (?C @ [output_file]) (File bytes t True)" and c': "fs_cwd ?fs' = ?C"
    by (simp_all add: after_write_def)
  from written_needs_dump [OF build]
  have "posix_json_dump fs output_file
          (manifest (posix_os fs) directory_path algorithm
             (listed (posix_os fs) lib directory_path output_file algorithm)) = None"
    by (simp add: posix_os_def)
  from dump_bare [OF bare this] obtain es0 where
    parent: "lookup ?r ?C = Some (Dir es0)" and
    free: "\<forall>es. lookup ?r (?C @ [output_file]) \<noteq> Some (Dir es)"
    by blast
  from posix_key_leads_back [OF wf w [unfolded wp]] obtain P sub m where
    P: "resolve_from ?r ?s (split_sep directory_path) = Some P" and
    ne: "directory_path \<noteq> []" and
    bs: "\<forall>c \<in> set (sub @ [file_name]). bare_name c" and
    m: "lookup ?r (P @ sub @ [file_name]) = Some m" and nd: "\<not> is_Dir m" and
    lf: "locate fs (posix_join root_dir file_name) = Some m" and
    rel: "posix_relpath fs (posix_join root_dir file_name) directory_path
            = Inr (join_parts (sub @ [file_name]))"
    by blast
  from file_record_Some [OF fr [unfolded wp]] rel
  have name: "file_name \<noteq> output_file" and rp: "rel_path = join_parts (sub @ [file_name])"
    by (simp_all add: posix_os_def)
  let ?Q = "P @ sub @ [file_name]"
  from name have other: "?Q \<noteq> ?C @ [output_file]"
    by (metis append_assoc last_snoc)
  from put_keeps_files [OF parent free m nd other] r'
  have m': "lookup ?r' ?Q = Some m" by simp
  have res: "resolve_from ?r ?s (split_sep (posix_join directory_path rel_path)) = Some ?Q"
    unfolding rp using posix_key_resolves [OF P ne bs _ m] by simp
  have keep: "\<And>R es. lookup ?r R = Some (Dir es) \<Longrightarrow> \<exists>es'. lookup ?r' R = Some (Dir es')"
    unfolding r' using put_keeps_directories [OF parent free] by blast
  from resolve_after_put [of ?r ?r', OF keep res] m'
  have res': "resolve_from ?r' ?s (split_sep (posix_join directory_path rel_path)) = Some ?Q"
    by simp
  have na: "\<not> isabs rel_path"
    unfolding rp using bs by (intro join_parts_not_abs) simp_all
  from ne na have ab: "isabs (posix_join directory_path rel_path) = isabs directory_path"
    by (rule isabs_join)
  from ne have jne: "posix_join directory_path rel_path \<noteq> []"
    by (rule posix_join_nonempty)
  from res' m' ab jne c' have "locate ?fs' (posix_join directory_path rel_path) = Some m"
    by (cases "isabs directory_path") (simp_all add: locate_def)
  with lf wp show ?thesis by simp
qed

lemma posix_manifest_persisted:
  assumes bare: "bare_name output_file"
    and build: "b_written (create_checksum_file (posix_os fs) lib directory_path output_file
                  algorithm) = Some (output_file, doc)"
    and dec: "dec bytes = Inr doc"
  shows "json_load (posix_os (after_write fs output_file bytes t dec)) output_file = Inr doc"
proof -
  let ?r = "fs_root fs"
  let ?C = "fs_cwd fs"
  let ?fs' = "after_write fs output_file bytes t dec"
  have r': "fs_root ?fs' = put ?r (?C @ [output_file]) (File bytes t True)"
    and c': "fs_cwd ?fs' = ?C" and d': "fs_decode ?fs' = dec"
    by (simp_all add: after_write_def)
  from written_needs_dump [OF build]
  have "posix_json_dump fs output_file
          (manifest (posix_os fs) directory_path algorithm
             (listed (posix_os fs) lib directory_path output_file algorithm)) = None"
    by (simp add: posix_os_def)
  from dump_bare [OF bare this] obtain es0 where
    parent: "lookup ?r ?C = Some (Dir es0)" and
    free: "\<forall>es. lookup ?r (?C @ [output_file]) \<noteq> Some (Dir es)"
    by blast
  from put_keeps_directories [OF parent free parent, of "File bytes t True"] r' c'
  obtain es' where "lookup (fs_root ?fs') (fs_cwd ?fs') = Some (Dir es')" by auto
  moreover from lookup_put_at [OF parent, of output_file "File bytes t True"] r' c'
  have "lookup (fs_root ?fs') (fs_cwd ?fs' @ [output_file]) = Some (File bytes t True)" by simp
  ultimately have "locate ?fs' output_file = Some (File bytes t True)"
    by (simp add: locate_bare [OF bare])
  with dec d' show ?thesis
    by (simp add: posix_os_def posix_json_load_def posix_open_rb_def)
qed

lemma posix_build_then_verify:
  assumes wf: "wf_node (fs_root fs)" and bare: "bare_name output_file"
    and build: "b_written (create_checksum_file (posix_os fs) lib directory_path output_file
                  algorithm) = Some (output_file, doc)"
    and dec: "dec bytes = Inr doc"
    and darg: "directory_arg = None \<or> directory_arg = Some directory_path"
  shows "\<exists>out res.
           verify_run (posix_os (after_write fs output_file bytes t dec)) lib output_file
             directory_arg = (out, Inr res) \<and>
           failed res = 0 \<and> missing res = 0 \<and> passed res = total res \<and>
           total res = length (listed (posix_os fs) lib directory_path output_file algorithm) \<and>
           snd (verify_integrity (posix_os (after_write fs output_file bytes t dec)) lib
                  output_file directory_arg) = True"
proof -
  let ?sys = "posix_os fs"
  let ?fs' = "after_write fs output_file bytes t dec"
  let ?sys' = "posix_os ?fs'"
  have target: "directory_path = (case directory_arg of None \<Rightarrow> directory_path | Some d \<Rightarrow> d)"
    using darg by auto
  have unmodified:
    "\<forall>w \<in> set (walked_files ?sys directory_path). \<forall>rel_path r.
        file_record ?sys lib directory_path output_file algorithm w = Some (rel_path, r) \<longrightarrow>
        os_path_exists ?sys' (os_path_join ?sys' directory_path rel_path) \<and>
        open_rb ?sys' (os_path_join ?sys' directory_path rel_path)
          = open_rb ?sys (os_path_join ?sys (fst w) (snd w))"
  proof (intro ballI allI impI)
    fix w rel_path r
    assume w: "w \<in> set (walked_files ?sys directory_path)"
      and fr: "file_record ?sys lib directory_path output_file algorithm w = Some (rel_path, r)"
    from posix_tree_unmodified [OF wf bare build w fr, of bytes t dec]
    show "os_path_exists ?sys' (os_path_join ?sys' directory_path rel_path) \<and>
        open_rb ?sys' (os_path_join ?sys' directory_path rel_path)
          = open_rb ?sys (os_path_join ?sys (fst w) (snd w))"
      by (simp add: posix_os_def posix_open_rb_def)
  qed
  have persisted: "json_load ?sys' output_file = Inr doc"
    using bare build dec by (rule posix_manifest_persisted)
  from round_trip_when_unmodified [OF build persisted target unmodified]
  show ?thesis .
qed


subsection \<open>The round trip\<close>

text \<open>
  When the round trip holds. First, for any system: when the build has written its manifest
  \<open>doc\<close>, verification reads \<open>doc\<close> back, and the tree is unmodified (every file the build
  listed is found at verification time under the target directory joined with its key, and
  opens to what it opened to at build time), verification reaches the summary with
  \<open>failed = 0\<close>, \<open>missing = 0\<close>, \<open>passed = total\<close> (the number of entries), and returns
  \<^verbatim>\<open>True\<close>. Second, in the POSIX file system this is so for every well-formed tree, every
  directory and every bare output file name, once the build has written its manifest: the
  file system in which verification runs is the one of the build with the manifest file
  written into the working directory, and nothing else is assumed of it.
\<close>

theorem round_trip_intact:
  "(b_written (create_checksum_file sys lib directory_path output_file algorithm)
      = Some (output_file, doc) \<and>
    json_load sys' checksum_file = Inr doc \<and>
    (\<forall>w \<in> set (walked_files sys directory_path). \<forall>rel_path r.
        file_record sys lib directory_path output_file algorithm w = Some (rel_path, r) \<longrightarrow>
        os_path_exists sys'
          (os_path_join sys' (case directory_arg of None \<Rightarrow> directory_path | Some d \<Rightarrow> d) rel_path) \<and>
        open_rb sys'
          (os_path_join sys' (case directory_arg of None \<Rightarrow> directory_path | Some d \<Rightarrow> d) rel_path)
          = open_rb sys (os_path_join sys (fst w) (snd w))) \<longrightarrow>
    (\<exists>out res.
       verify_run sys' lib checksum_file directory_arg = (out, Inr res) \<and>
       failed res = 0 \<and> missing res = 0 \<and> passed res = total res \<and>
       total res = length (listed sys lib directory_path output_file algorithm) \<and>
       snd (verify_integrity sys' lib checksum_file directory_arg) = True))
   \<and>
   (wf_node (fs_root fs) \<and> bare_name output_file \<and>
    b_written (create_checksum_file (posix_os fs) lib directory_path output_file algorithm)
      = Some (output_file, built) \<and>
    dec bytes = Inr built \<and>
    (same_dir = None \<or> same_dir = Some directory_path) \<longrightarrow>
    (\<exists>out res.
       verify_run (posix_os (after_write fs output_file bytes t dec)) lib output_file same_dir
         = (out, Inr res) \<and>
       failed res = 0 \<and> missing res = 0 \<and> passed res = total res \<and>
       total res = length (listed (posix_os fs) lib directory_path output_file algorithm) \<and>
       snd (verify_integrity (posix_os (after_write fs output_file bytes t dec)) lib
              output_file same_dir) = True))"
proof (intro conjI impI)
  assume h: "b_written (create_checksum_file sys lib directory_path output_file algorithm)
      = Some (output_file, doc) \<and>
    json_load sys' checksum_file = Inr doc \<and>
    (\<forall>w \<in> set (walked_files sys directory_path). \<forall>rel_path r.
        file_record sys lib directory_path output_file algorithm w = Some (rel_path, r) \<longrightarrow>
        os_path_exists sys'
          (os_path_join sys' (case directory_arg of None \<Rightarrow> directory_path | Some d \<Rightarrow> d) rel_path) \<and>
        open_rb sys'
          (os_path_join sys' (case directory_arg of None \<Rightarrow> directory_path | Some d \<Rightarrow> d) rel_path)
          = open_rb sys (os_path_join sys (fst w) (snd w)))"
  then have build: "b_written (create_checksum_file sys lib directory_path output_file algorithm)
      = Some (output_file, doc)"
    and persisted: "json_load sys' checksum_file = Inr doc"
    and unmodified: "\<forall>w \<in> set (walked_files sys directory_path). \<forall>rel_path r.
        file_record sys lib directory_path output_file algorithm w = Some (rel_path, r) \<longrightarrow>
        os_path_exists sys'
          (os_path_join sys' (case directory_arg of None \<Rightarrow> directory_path | Some d \<Rightarrow> d) rel_path) \<and>
        open_rb sys'
          (os_path_join sys' (case directory_arg of None \<Rightarrow> directory_path | Some d \<Rightarrow> d) rel_path)
          = open_rb sys (os_path_join sys (fst w) (snd w))"
    by blast+
  from round_trip_when_unmodified [OF build persisted refl unmodified]
  show "\<exists>out res.
       verify_run sys' lib checksum_file directory_arg = (out, Inr res) \<and>
       failed res = 0 \<and> missing res = 0 \<and> passed res = total res \<and>
       total res = length (listed sys lib directory_path output_file algorithm) \<and>
       snd (verify_integrity sys' lib checksum_file directory_arg) = True" .
next
  assume h: "wf_node (fs_root fs) \<and> bare_name output_file \<and>
    b_written (create_checksum_file (posix_os fs) lib directory_path output_file algorithm)
      = Some (output_file, built) \<and>
    dec bytes = Inr built \<and>
    (same_dir = None \<or> same_dir = Some directory_path)"
  then have wf: "wf_node (fs_root fs)" and bare: "bare_name output_file"
    and build: "b_written (create_checksum_file (posix_os fs) lib directory_path output_file
                  algorithm) = Some (output_file, built)"
    and dec: "dec bytes = Inr built"
    and darg: "same_dir = None \<or> same_dir = Some directory_path"
    by blast+
  from wf bare build dec darg
  show "\<exists>out res.
       verify_run (posix_os (after_write fs output_file bytes t dec)) lib output_file same_dir
         = (out, Inr res) \<and>
       failed res = 0 \<and> missing res = 0 \<and> passed res = total res \<and>
       total res = length (listed (posix_os fs) lib directory_path output_file algorithm) \<and>
       snd (verify_integrity (posix_os (after_write fs output_file bytes t dec)) lib
              output_file same_dir) = True"
    by (rule posix_build_then_verify)
qed

theorem round_trip_witness:
  "b_written (create_checksum_file (posix_os demo_fs) toy_hashlib ''.'' ''checksums.json''
       (PStr ''sha256'')) = Some (''checksums.json'', demo_manifest)
   \<and> wf_node (fs_root demo_fs) \<and> bare_name ''checksums.json''
   \<and> after_write demo_fs ''checksums.json'' [123, 125] 9
        (\<lambda>bs. if bs = [123, 125] then Inr demo_manifest else Inl JSONDecodeError)
       = with_manifest demo_manifest
   \<and> json_load (posix_os (with_manifest demo_manifest)) ''checksums.json'' = Inr demo_manifest
   \<and> verify_integrity (posix_os (with_manifest demo_manifest)) toy_hashlib ''checksums.json'' None
       = ([MsgVerifying (PStr ''.''), MsgAlgorithm (PStr ''sha256''), MsgRule,
           MsgIntact ''a.txt'', MsgIntact ''sub/b.txt'',
           MsgRule, MsgResults, MsgTotal 2, MsgPassed 2, MsgFailed 0, MsgMissing 0, MsgAllGood],
          True)
   \<and> (\<exists>out res.
         verify_run (posix_os (with_manifest demo_manifest)) toy_hashlib ''checksums.json'' None
           = (out, Inr res) \<and>
         failed res = 0 \<and> missing res = 0 \<and> passed res = total res \<and> total res = 2)"
proof -
  let ?sys = "posix_os demo_fs"
  let ?sys' = "posix_os (with_manifest demo_manifest)"
  let ?dec = "\<lambda>bs. if bs = [123, 125] then Inr demo_manifest else Inl JSONDecodeError"
  have b: "b_written (create_checksum_file ?sys toy_hashlib ''.'' ''checksums.json''
       (PStr ''sha256'')) = Some (''checksums.json'', demo_manifest)"
    by (simp add: demo_build)
  have wf: "wf_node (fs_root demo_fs)"
    by (simp add: demo_fs_def bare_name_def)
  have bn: "bare_name ''checksums.json''"
    by (simp add: bare_name_def)
  have aw: "after_write demo_fs ''checksums.json'' [123, 125] 9 ?dec = with_manifest demo_manifest"
    by (simp add: after_write_def demo_fs_def with_manifest_def)
  have l: "json_load ?sys' ''checksums.json'' = Inr demo_manifest"
    by (simp add: posix_eval with_manifest_def)
  have u: "\<forall>w \<in> set (walked_files ?sys ''.''). \<forall>rel_path r.
          file_record ?sys toy_hashlib ''.'' ''checksums.json'' (PStr ''sha256'') w
            = Some (rel_path, r) \<longrightarrow>
          os_path_exists ?sys' (os_path_join ?sys' (case None of None \<Rightarrow> ''.'' | Some d \<Rightarrow> d) rel_path) \<and>
          open_rb ?sys' (os_path_join ?sys' (case None of None \<Rightarrow> ''.'' | Some d \<Rightarrow> d) rel_path)
            = open_rb ?sys (os_path_join ?sys (fst w) (snd w))"
    unfolding demo_walked
    by (simp add: record_eval program_eval posix_eval toy_eval demo_fs_def with_manifest_def)
  have n: "length (listed ?sys toy_hashlib ''.'' ''checksums.json'' (PStr ''sha256'')) = 2"
    by (simp add: demo_listed)
  have v: "verify_integrity ?sys' toy_hashlib ''checksums.json'' None
       = ([MsgVerifying (PStr ''.''), MsgAlgorithm (PStr ''sha256''), MsgRule,
           MsgIntact ''a.txt'', MsgIntact ''sub/b.txt'',
           MsgRule, MsgResults, MsgTotal 2, MsgPassed 2, MsgFailed 0, MsgMissing 0, MsgAllGood],
          True)"
    by (simp add: program_eval posix_eval toy_eval with_manifest_def demo_manifest_def)
  note rt = round_trip_intact [of ?sys toy_hashlib "''.''" "''checksums.json''" "PStr ''sha256''"
      demo_manifest ?sys' "''checksums.json''" None demo_fs demo_manifest ?dec "[123, 125]" None 9]
  from rt b l u n have first: "\<exists>out res.
         verify_run ?sys' toy_hashlib ''checksums.json'' None = (out, Inr res) \<and>
         failed res = 0 \<and> missing res = 0 \<and> passed res = total res \<and> total res = 2"
    by auto
  from rt b wf bn aw have "snd (verify_integrity ?sys' toy_hashlib ''checksums.json'' None) = True"
    by auto
  with b wf bn aw l v first show ?thesis
    by simp
qed

subsection \<open>The round trip that fails\<close>

text \<open>
  C1. Building a manifest and verifying it at once against the same tree must report every
  entry as passed and return \<^verbatim>\<open>True\<close>. The code does not keep this on a rebuild with
  an output file that has a directory part. In the tree where an earlier build has left
  \<^verbatim>\<open>out/checksums.json\<close>, the build with the directory \<^verbatim>\<open>.\<close> and that output
  file returns \<^verbatim>\<open>True\<close>, having listed the old manifest file with the digest of its
  old content (the comparison of line 91 does not skip it) and then written the new manifest
  over it (line 115). Verification of the new manifest, in the tree that differs from the
  one scanned by this write alone, finds the digest of the manifest file changed: one entry
  passed, one failed, and the function returns \<^verbatim>\<open>False\<close>.
\<close>

theorem rebuild_round_trip_fails:
  "create_checksum_file (posix_os rebuild_fs) toy_hashlib ''.'' ''out/checksums.json''
       (PStr ''sha256'')
     = \<lparr>b_printed =
          [MsgScanning ''.'', MsgRule, MsgProcessed ''a.txt'',
           MsgProcessed ''out/checksums.json'', MsgRule, MsgDone 2,
           MsgSaved ''out/checksums.json''],
        b_returned = True,
        b_written = Some (''out/checksums.json'', rebuilt_manifest)\<rparr>
   \<and> fs_root rebuilt_fs
       = put (fs_root rebuild_fs) [''w'', ''out'', ''checksums.json''] (File [123, 10, 125] 10 True)
   \<and> fs_cwd rebuilt_fs = fs_cwd rebuild_fs
   \<and> json_load (posix_os rebuilt_fs) ''out/checksums.json'' = Inr rebuilt_manifest
   \<and> verify_integrity (posix_os rebuilt_fs) toy_hashlib ''out/checksums.json'' None
       = ([MsgVerifying (PStr ''.''), MsgAlgorithm (PStr ''sha256''), MsgRule,
           MsgIntact ''a.txt'',
           MsgViolated ''out/checksums.json'', MsgExpected (PStr ''0f62''), MsgGot ''cf6e'',
           MsgRule, MsgResults, MsgTotal 2, MsgPassed 1, MsgFailed 1, MsgMissing 0, MsgProblems],
          False)"
proof -
  have build: "create_checksum_file (posix_os rebuild_fs) toy_hashlib ''.'' ''out/checksums.json''
       (PStr ''sha256'')
     = \<lparr>b_printed =
          [MsgScanning ''.'', MsgRule, MsgProcessed ''a.txt'',
           MsgProcessed ''out/checksums.json'', MsgRule, MsgDone 2,
           MsgSaved ''out/checksums.json''],
        b_returned = True,
        b_written = Some (''out/checksums.json'', rebuilt_manifest)\<rparr>"
    by (simp add: program_eval posix_eval toy_eval rebuild_fs_def rebuilt_manifest_def Let_def)
  have tree: "fs_root rebuilt_fs
       = put (fs_root rebuild_fs) [''w'', ''out'', ''checksums.json''] (File [123, 10, 125] 10 True)"
    by (simp add: rebuilt_fs_def rebuild_fs_def)
  have cwd: "fs_cwd rebuilt_fs = fs_cwd rebuild_fs"
    by (simp add: rebuilt_fs_def rebuild_fs_def)
  have load: "json_load (posix_os rebuilt_fs) ''out/checksums.json'' = Inr rebuilt_manifest"
    by (simp add: posix_eval rebuilt_fs_def)
  have verify: "verify_integrity (posix_os rebuilt_fs) toy_hashlib ''out/checksums.json'' None
       = ([MsgVerifying (PStr ''.''), MsgAlgorithm (PStr ''sha256''), MsgRule,
           MsgIntact ''a.txt'',
           MsgViolated ''out/checksums.json'', MsgExpected (PStr ''0f62''), MsgGot ''cf6e'',
           MsgRule, MsgResults, MsgTotal 2, MsgPassed 1, MsgFailed 1, MsgMissing 0, MsgProblems],
          False)"
    by (simp add: program_eval posix_eval toy_eval rebuilt_fs_def rebuilt_manifest_def)
  from build tree cwd load verify show ?thesis
    by simp
qed

end
